theory Spec2Isabelle
  imports Complex_Main
begin

section \<open>Numbers, points and the curve object\<close>

text \<open>
  The source is \<^verbatim>\<open>v3/src/paths/curves/Curve.js\<close>, the abstract curve base class.
  JavaScript numbers are idealised as real numbers (no rounding). The values that are
  not finite numbers arise in the code only where an array is read out of range
  (\<^verbatim>\<open>undefined\<close>, which arithmetic turns into \<^verbatim>\<open>NaN\<close>) and where a division has
  a zero divisor; both are written out below.
\<close>

datatype jsnum = Finite real | NaN | Infinity | NegInfinity

text \<open>
  A curve over points of type \<open>'p\<close>. \<open>getPoint\<close> is the evaluator that every
  concrete shape supplies. The point class (Vector2 or Vector3) is not part of the
  file; its methods used by the base class are fields of the record:
  \<open>distanceTo\<close>, \<open>subV\<close> (\<^verbatim>\<open>a.clone().sub(b)\<close>) and \<open>normalizeV\<close>.
\<close>

record 'p curve =
  getPoint :: "jsnum \<Rightarrow> 'p"
  distanceTo :: "'p \<Rightarrow> 'p \<Rightarrow> real"
  subV :: "'p \<Rightarrow> 'p \<Rightarrow> 'p"
  normalizeV :: "'p \<Rightarrow> 'p"

text \<open>
  The mutable fields of a curve instance. \<open>arcLengthDivisions\<close> is
  \<^verbatim>\<open>this.__arcLengthDivisions\<close>, with \<open>0\<close> for a field that is unset (\<^verbatim>\<open>undefined\<close>
  and \<^verbatim>\<open>0\<close> are both falsy); \<open>cacheArcLengths = None\<close> is an unset cache;
  \<open>needsUpdate\<close> is \<open>False\<close> when unset. \<open>evaluated\<close> is instrumentation:
  the arguments of the calls of the evaluator made so far, in call order.
\<close>

record curve_state =
  arcLengthDivisions :: nat
  cacheArcLengths :: "real list option"
  needsUpdate :: bool
  evaluated :: "jsnum list"

definition newCurve :: "nat \<Rightarrow> curve_state" where
  "newCurve n = \<lparr>arcLengthDivisions = n, cacheArcLengths = None,
                 needsUpdate = False, evaluated = []\<rparr>"

definition callGetPoint :: "'p curve \<Rightarrow> jsnum \<Rightarrow> curve_state \<Rightarrow> 'p \<times> curve_state" where
  "callGetPoint c t s = (getPoint c t, s\<lparr>evaluated := evaluated s @ [t]\<rparr>)"

section \<open>getPoints\<close>

function pointsLoop ::
  "'p curve \<Rightarrow> nat \<Rightarrow> nat \<Rightarrow> 'p list \<Rightarrow> curve_state \<Rightarrow> 'p list \<times> curve_state" where
  "pointsLoop c divisions d points s =
     (if d \<le> divisions then
        (case callGetPoint c (Finite (real d / real divisions)) s of
           (pt, s1) \<Rightarrow> pointsLoop c divisions (Suc d) (points @ [pt]) s1)
      else (points, s))"
  by pat_completeness auto
termination
  by (relation "measure (\<lambda>(c, divisions, d, points, s). Suc divisions - d)") auto

declare pointsLoop.simps [simp del]

definition getPoints ::
  "'p curve \<Rightarrow> nat option \<Rightarrow> curve_state \<Rightarrow> 'p list \<times> curve_state" where
  "getPoints c divisions s =
     (let divisions = (case divisions of None \<Rightarrow> 5
                       | Some d \<Rightarrow> if d = 0 then 5 else d)
      in pointsLoop c divisions 0 [] s)"

section \<open>The arc-length table: getLengths and updateArcLengths\<close>

function lengthsLoop ::
  "'p curve \<Rightarrow> nat \<Rightarrow> nat \<Rightarrow> 'p \<Rightarrow> real \<Rightarrow> real list \<Rightarrow> curve_state
     \<Rightarrow> real list \<times> curve_state" where
  "lengthsLoop c divisions p lastP sumL cache s =
     (if p \<le> divisions then
        (case callGetPoint c (Finite (real p / real divisions)) s of
           (current, s1) \<Rightarrow>
             (let sumL1 = sumL + distanceTo c current lastP
              in lengthsLoop c divisions (Suc p) current sumL1 (cache @ [sumL1]) s1))
      else (cache, s))"
  by pat_completeness auto
termination
  by (relation "measure (\<lambda>(c, divisions, p, lastP, sumL, cache, s). Suc divisions - p)") auto

declare lengthsLoop.simps [simp del]

text \<open>The division count in force: the argument when truthy, else the configured
  count when truthy, else 200.\<close>

definition lengthDivisions :: "nat option \<Rightarrow> curve_state \<Rightarrow> nat" where
  "lengthDivisions divisions s =
     (case divisions of
        Some d \<Rightarrow> if d \<noteq> 0 then d
                  else if arcLengthDivisions s \<noteq> 0 then arcLengthDivisions s else 200
      | None \<Rightarrow> if arcLengthDivisions s \<noteq> 0 then arcLengthDivisions s else 200)"

definition buildLengths ::
  "'p curve \<Rightarrow> nat \<Rightarrow> curve_state \<Rightarrow> real list \<times> curve_state" where
  "buildLengths c divisions s =
     (case callGetPoint c (Finite 0) (s\<lparr>needsUpdate := False\<rparr>) of
        (lastP, s1) \<Rightarrow>
          (case lengthsLoop c divisions 1 lastP 0 [0] s1 of
             (cache, s2) \<Rightarrow> (cache, s2\<lparr>cacheArcLengths := Some cache\<rparr>)))"

definition getLengths ::
  "'p curve \<Rightarrow> nat option \<Rightarrow> curve_state \<Rightarrow> real list \<times> curve_state" where
  "getLengths c divisions s =
     (let divisions = lengthDivisions divisions s
      in case cacheArcLengths s of
           None \<Rightarrow> buildLengths c divisions s
         | Some xs \<Rightarrow>
             if length xs = divisions + 1 \<and> \<not> needsUpdate s then (xs, s)
             else buildLengths c divisions s)"

definition updateArcLengths :: "'p curve \<Rightarrow> curve_state \<Rightarrow> curve_state" where
  "updateArcLengths c s = snd (getLengths c None (s\<lparr>needsUpdate := True\<rparr>))"

definition getLength :: "'p curve \<Rightarrow> curve_state \<Rightarrow> real option \<times> curve_state" where
  "getLength c s =
     (case getLengths c None s of
        (lengths, s1) \<Rightarrow> ((if lengths = [] then None else Some (last lengths)), s1))"

section \<open>The parameter remapper: getUtoTmapping\<close>

text \<open>\<^verbatim>\<open>arcLengths[i]\<close>: \<open>None\<close> is \<^verbatim>\<open>undefined\<close>, the value of a read out of range.\<close>

definition elemAt :: "real list \<Rightarrow> int \<Rightarrow> real option" where
  "elemAt xs i = (if 0 \<le> i \<and> i < int (length xs) then Some (xs ! nat i) else None)"

text \<open>
  The \<^verbatim>\<open>while (low <= high)\<close> loop; the value is the final \<^verbatim>\<open>high\<close>. An
  undefined \<^verbatim>\<open>arcLengths[i]\<close> makes \<^verbatim>\<open>comparison\<close> \<^verbatim>\<open>NaN\<close>, both comparisons
  false, so the last branch is taken.
\<close>

function binarySearch :: "real list \<Rightarrow> real \<Rightarrow> int \<Rightarrow> int \<Rightarrow> int" where
  "binarySearch arcLengths target low high =
     (if low \<le> high then
        (let i = \<lfloor>real_of_int low + real_of_int (high - low) / 2\<rfloor>
         in case elemAt arcLengths i of
              None \<Rightarrow> i
            | Some v \<Rightarrow>
                (let comparison = v - target
                 in if comparison < 0 then binarySearch arcLengths target (i + 1) high
                    else if comparison > 0 then binarySearch arcLengths target low (i - 1)
                    else i))
      else high)"
  by pat_completeness auto
termination
proof (relation "measure (\<lambda>(arcLengths, target, low, high). nat (high - low + 1))",
    goal_cases)
  case 1
  show ?case by simp
next
  case (2 arcLengths target low high i v comparison)
  have "\<lfloor>real_of_int (high - low) / real_of_int 2\<rfloor> = (high - low) div 2"
    by (rule floor_divide_of_int_eq)
  then have "\<lfloor>real_of_int (high - low) / 2\<rfloor> = (high - low) div 2"
    by simp
  moreover have "\<lfloor>real_of_int low + real_of_int (high - low) / 2\<rfloor>
      = low + \<lfloor>real_of_int (high - low) / 2\<rfloor>"
    by (rule int_add_floor [symmetric])
  ultimately have "i = low + (high - low) div 2"
    using 2(2) by (simp only:)
  with 2(1) have "low \<le> i \<and> i \<le> high" by presburger
  then show ?case by simp
next
  case (3 arcLengths target low high i v comparison)
  have "\<lfloor>real_of_int (high - low) / real_of_int 2\<rfloor> = (high - low) div 2"
    by (rule floor_divide_of_int_eq)
  then have "\<lfloor>real_of_int (high - low) / 2\<rfloor> = (high - low) div 2"
    by simp
  moreover have "\<lfloor>real_of_int low + real_of_int (high - low) / 2\<rfloor>
      = low + \<lfloor>real_of_int (high - low) / 2\<rfloor>"
    by (rule int_add_floor [symmetric])
  ultimately have "i = low + (high - low) div 2"
    using 3(2) by (simp only:)
  with 3(1) have "low \<le> i \<and> i \<le> high" by presburger
  then show ?case by simp
qed

declare binarySearch.simps [simp del]

text \<open>
  Division of finite numbers. A zero divisor is \<^verbatim>\<open>+0\<close> wherever the code divides
  (the difference of two equal numbers, or \<^verbatim>\<open>il - 1\<close>).
\<close>

definition jsDivide :: "real \<Rightarrow> real \<Rightarrow> jsnum" where
  "jsDivide x y =
     (if y \<noteq> 0 then Finite (x / y)
      else if x = 0 then NaN else if 0 < x then Infinity else NegInfinity)"

fun jsAdd :: "jsnum \<Rightarrow> real \<Rightarrow> jsnum" where
  "jsAdd (Finite x) y = Finite (x + y)"
| "jsAdd NaN y = NaN"
| "jsAdd Infinity y = Infinity"
| "jsAdd NegInfinity y = NegInfinity"

fun jsOver :: "jsnum \<Rightarrow> real \<Rightarrow> jsnum" where
  "jsOver (Finite x) y = jsDivide x y"
| "jsOver NaN y = NaN"
| "jsOver Infinity y = (if y < 0 then NegInfinity else Infinity)"
| "jsOver NegInfinity y = (if y < 0 then Infinity else NegInfinity)"

fun jsLess :: "jsnum \<Rightarrow> real \<Rightarrow> bool" where
  "jsLess (Finite x) y = (x < y)"
| "jsLess NaN y = False"
| "jsLess Infinity y = False"
| "jsLess NegInfinity y = True"

fun jsGreater :: "jsnum \<Rightarrow> real \<Rightarrow> bool" where
  "jsGreater (Finite x) y = (x > y)"
| "jsGreater NaN y = False"
| "jsGreater Infinity y = True"
| "jsGreater NegInfinity y = False"

text \<open>
  The target of the search. \<open>distance = None\<close> is an omitted argument; the test
  \<^verbatim>\<open>if (distance)\<close> is a truthiness test, which \<^verbatim>\<open>0\<close> fails. The value \<open>None\<close> is
  \<^verbatim>\<open>NaN\<close>, the product of \<^verbatim>\<open>u\<close> and an undefined \<^verbatim>\<open>arcLengths[il - 1]\<close>.
\<close>

definition targetArcLength :: "real \<Rightarrow> real option \<Rightarrow> real list \<Rightarrow> real option" where
  "targetArcLength u distance arcLengths =
     (let il = int (length arcLengths)
      in case distance of
           None \<Rightarrow> map_option (\<lambda>total. u * total) (elemAt arcLengths (il - 1))
         | Some d \<Rightarrow>
             if d \<noteq> 0 then Some d
             else map_option (\<lambda>total. u * total) (elemAt arcLengths (il - 1)))"

text \<open>
  The search and the interpolation on a given table. With a \<^verbatim>\<open>NaN\<close> target every
  comparison is false: the loop breaks at once, the equality test fails and the
  interpolation yields \<^verbatim>\<open>NaN\<close>. An undefined \<^verbatim>\<open>arcLengths[i]\<close> or
  \<^verbatim>\<open>arcLengths[i + 1]\<close> makes the interpolation \<^verbatim>\<open>NaN\<close> as well.
\<close>

definition mapTarget :: "real list \<Rightarrow> real option \<Rightarrow> jsnum" where
  "mapTarget arcLengths targetOpt =
     (let il = int (length arcLengths)
      in case targetOpt of
           None \<Rightarrow> NaN
         | Some target \<Rightarrow>
             (let i = binarySearch arcLengths target 0 (il - 1)
              in if elemAt arcLengths i = Some target
                 then jsDivide (real_of_int i) (real_of_int (il - 1))
                 else
                   (case elemAt arcLengths i of
                      None \<Rightarrow> NaN
                    | Some lengthBefore \<Rightarrow>
                        (case elemAt arcLengths (i + 1) of
                           None \<Rightarrow> NaN
                         | Some lengthAfter \<Rightarrow>
                             (let segmentLength = lengthAfter - lengthBefore;
                                  segmentFraction =
                                    jsDivide (target - lengthBefore) segmentLength
                              in jsOver (jsAdd segmentFraction (real_of_int i))
                                   (real_of_int (il - 1)))))))"

definition getUtoTmapping ::
  "'p curve \<Rightarrow> real \<Rightarrow> real option \<Rightarrow> curve_state \<Rightarrow> jsnum \<times> curve_state" where
  "getUtoTmapping c u distance s =
     (case getLengths c None s of
        (arcLengths, s1) \<Rightarrow>
          (mapTarget arcLengths (targetArcLength u distance arcLengths), s1))"

section \<open>Sampling by arc length, tangents\<close>

definition getPointAt :: "'p curve \<Rightarrow> real \<Rightarrow> curve_state \<Rightarrow> 'p \<times> curve_state" where
  "getPointAt c u s =
     (case getUtoTmapping c u None s of (t, s1) \<Rightarrow> callGetPoint c t s1)"

function spacedLoop ::
  "'p curve \<Rightarrow> nat \<Rightarrow> nat \<Rightarrow> 'p list \<Rightarrow> curve_state \<Rightarrow> 'p list \<times> curve_state" where
  "spacedLoop c divisions d points s =
     (if d \<le> divisions then
        (case getPointAt c (real d / real divisions) s of
           (pt, s1) \<Rightarrow> spacedLoop c divisions (Suc d) (points @ [pt]) s1)
      else (points, s))"
  by pat_completeness auto
termination
  by (relation "measure (\<lambda>(c, divisions, d, points, s). Suc divisions - d)") auto

declare spacedLoop.simps [simp del]

definition getSpacedPoints ::
  "'p curve \<Rightarrow> nat option \<Rightarrow> curve_state \<Rightarrow> 'p list \<times> curve_state" where
  "getSpacedPoints c divisions s =
     (let divisions = (case divisions of None \<Rightarrow> 5
                       | Some d \<Rightarrow> if d = 0 then 5 else d)
      in spacedLoop c divisions 0 [] s)"

definition getTangent :: "'p curve \<Rightarrow> jsnum \<Rightarrow> curve_state \<Rightarrow> 'p \<times> curve_state" where
  "getTangent c t s =
     (let delta = 1 / 10000;
          t1 = jsAdd t (- delta);
          t2 = jsAdd t delta;
          t1 = (if jsLess t1 0 then Finite 0 else t1);
          t2 = (if jsGreater t2 1 then Finite 1 else t2)
      in case callGetPoint c t1 s of
           (pt1, s1) \<Rightarrow>
             (case callGetPoint c t2 s1 of
                (pt2, s2) \<Rightarrow> (normalizeV c (subV c pt2 pt1), s2)))"

definition getTangentAt :: "'p curve \<Rightarrow> real \<Rightarrow> curve_state \<Rightarrow> 'p \<times> curve_state" where
  "getTangentAt c u s =
     (case getUtoTmapping c u None s of (t, s1) \<Rightarrow> getTangent c t s1)"

section \<open>Frenet frames: computeFrenetFrames\<close>

text \<open>
  The vector and matrix classes (Vector3, Matrix4) and the Clamp helper are not among
  the source files. The specification asks of the primitives the operations subtract,
  cross, dot, normalize, distance, clone and rotate-about-axis-by-angle, and of the
  clamp that it keeps the argument of the arc cosine in \<open>[-1, 1]\<close>. They are given
  their mathematical meaning over the real numbers.
\<close>

datatype vec3 = Vec3 (vx: real) (vy: real) (vz: real)

text \<open>Modelled from the spec: \<^verbatim>\<open>a.dot(b)\<close> of Vector3, the dot product.\<close>

definition dotV :: "vec3 \<Rightarrow> vec3 \<Rightarrow> real" where
  "dotV a b = vx a * vx b + vy a * vy b + vz a * vz b"

text \<open>Modelled from the spec: \<^verbatim>\<open>v.crossVectors(a, b)\<close> of Vector3, the cross
  product of \<open>a\<close> and \<open>b\<close>.\<close>

definition crossVectors :: "vec3 \<Rightarrow> vec3 \<Rightarrow> vec3" where
  "crossVectors a b =
     Vec3 (vy a * vz b - vz a * vy b) (vz a * vx b - vx a * vz b) (vx a * vy b - vy a * vx b)"

text \<open>Modelled from the spec: \<^verbatim>\<open>v.length()\<close> of Vector3, the Euclidean length.\<close>

definition lengthV :: "vec3 \<Rightarrow> real" where
  "lengthV v = sqrt (dotV v v)"

text \<open>Modelled from the spec: \<^verbatim>\<open>v.normalize()\<close> of Vector3, the vector scaled to
  length 1; the zero vector is left as it is.\<close>

definition normalizeVec3 :: "vec3 \<Rightarrow> vec3" where
  "normalizeVec3 v =
     (if lengthV v > 0
      then Vec3 (vx v / lengthV v) (vy v / lengthV v) (vz v / lengthV v)
      else v)"

text \<open>Modelled from the spec: \<^verbatim>\<open>a.clone().sub(b)\<close> of Vector3, the difference.\<close>

definition subVec3 :: "vec3 \<Rightarrow> vec3 \<Rightarrow> vec3" where
  "subVec3 a b = Vec3 (vx a - vx b) (vy a - vy b) (vz a - vz b)"

text \<open>Modelled from the spec: \<^verbatim>\<open>a.distanceTo(b)\<close> of Vector3, the Euclidean
  distance.\<close>

definition distanceVec3 :: "vec3 \<Rightarrow> vec3 \<Rightarrow> real" where
  "distanceVec3 a b = lengthV (subVec3 a b)"

text \<open>Modelled from the spec: \<^verbatim>\<open>v.transformMat4(mat.makeRotationAxis(axis, angle))\<close>
  of Vector3 and Matrix4, the rotate-about-axis-by-angle primitive: the right-handed
  rotation of \<open>v\<close> about the unit vector \<open>axis\<close>, as the product with the rotation
  matrix.\<close>

definition rotateAboutAxis :: "vec3 \<Rightarrow> real \<Rightarrow> vec3 \<Rightarrow> vec3" where
  "rotateAboutAxis axis angle v =
     (let c = cos angle; s = sin angle; t = 1 - c;
          x = vx axis; y = vy axis; z = vz axis
      in Vec3 ((t * x * x + c) * vx v + (t * x * y - s * z) * vy v + (t * x * z + s * y) * vz v)
              ((t * x * y + s * z) * vx v + (t * y * y + c) * vy v + (t * y * z - s * x) * vz v)
              ((t * x * z - s * y) * vx v + (t * y * z + s * x) * vy v + (t * z * z + c) * vz v))"

text \<open>Modelled from the spec: \<^verbatim>\<open>Clamp(v, lo, hi)\<close>, the value brought into
  \<open>[lo, hi]\<close>.\<close>

definition Clamp :: "real \<Rightarrow> real \<Rightarrow> real \<Rightarrow> real" where
  "Clamp v lo hi = max lo (min hi v)"

text \<open>\<^verbatim>\<open>Number.EPSILON\<close> and \<^verbatim>\<open>Number.MAX_VALUE\<close>.\<close>

definition numberEPSILON :: real where
  "numberEPSILON = 1 / 2 ^ 52"

definition numberMAX_VALUE :: real where
  "numberMAX_VALUE = (2 - 1 / 2 ^ 52) * 2 ^ 1023"

text \<open>The object that \<^verbatim>\<open>computeFrenetFrames\<close> returns.\<close>

record frenet_frames =
  tangents :: "vec3 list"
  normals :: "vec3 list"
  binormals :: "vec3 list"

text \<open>
  \<^verbatim>\<open>getTangentAt(i / segments)\<close>. With \<open>segments = 0\<close> the quotient \<open>0 / 0\<close> is
  \<^verbatim>\<open>NaN\<close>: the remapper then makes its length query and returns \<^verbatim>\<open>NaN\<close>.
\<close>

definition tangentAtStep ::
  "vec3 curve \<Rightarrow> nat \<Rightarrow> nat \<Rightarrow> curve_state \<Rightarrow> vec3 \<times> curve_state" where
  "tangentAtStep c i segments s =
     (if segments \<noteq> 0 then getTangentAt c (real i / real segments) s
      else (case getLengths c None s of (arcLengths, s1) \<Rightarrow> getTangent c NaN s1))"

text \<open>The first loop. Here and below an array has exactly \<open>i\<close> entries when its
  index \<open>i\<close> is assigned, so that the assignment appends.\<close>

function tangentsLoop ::
  "vec3 curve \<Rightarrow> nat \<Rightarrow> nat \<Rightarrow> vec3 list \<Rightarrow> curve_state \<Rightarrow> vec3 list \<times> curve_state" where
  "tangentsLoop c segments i ts s =
     (if i \<le> segments then
        (case tangentAtStep c i segments s of
           (tg, s1) \<Rightarrow> tangentsLoop c segments (Suc i) (ts @ [normalizeV c tg]) s1)
      else (ts, s))"
  by pat_completeness auto
termination
  by (relation "measure (\<lambda>(c, segments, i, ts, s). Suc segments - i)") auto

declare tangentsLoop.simps [simp del]

text \<open>The initial normal: the axis along which the first tangent is smallest.\<close>

definition initialNormal :: "vec3 \<Rightarrow> vec3" where
  "initialNormal t0 =
     (let tx = \<bar>vx t0\<bar>; ty = \<bar>vy t0\<bar>; tz = \<bar>vz t0\<bar>
      in case (if tx \<le> numberMAX_VALUE then (tx, Vec3 1 0 0)
               else (numberMAX_VALUE, Vec3 0 0 0)) of
           (min1, normal1) \<Rightarrow>
             (case (if ty \<le> min1 then (ty, Vec3 0 1 0) else (min1, normal1)) of
                (min2, normal2) \<Rightarrow> if tz \<le> min2 then Vec3 0 0 1 else normal2))"

text \<open>The second loop: parallel transport of the normal along the tangents.\<close>

definition transportNormal :: "vec3 \<Rightarrow> vec3 \<Rightarrow> vec3 \<Rightarrow> vec3" where
  "transportNormal tPrev tCur n =
     (let vec = crossVectors tPrev tCur
      in if lengthV vec > numberEPSILON
         then (let vec1 = normalizeVec3 vec;
                   theta = arccos (Clamp (dotV tPrev tCur) (- 1) 1)
               in rotateAboutAxis vec1 theta n)
         else n)"

function framesLoop ::
  "vec3 list \<Rightarrow> nat \<Rightarrow> nat \<Rightarrow> vec3 list \<Rightarrow> vec3 list \<Rightarrow> vec3 list \<times> vec3 list" where
  "framesLoop ts segments i ns bs =
     (if i \<le> segments then
        (let n1 = transportNormal (ts ! (i - 1)) (ts ! i) (ns ! (i - 1));
             b1 = crossVectors (ts ! i) n1
         in framesLoop ts segments (Suc i) (ns @ [n1]) (bs @ [b1]))
      else (ns, bs))"
  by pat_completeness auto
termination
  by (relation "measure (\<lambda>(ts, segments, i, ns, bs). Suc segments - i)") auto

declare framesLoop.simps [simp del]

text \<open>The third loop, run for a closed curve: the twist correction.\<close>

function twistLoop ::
  "vec3 list \<Rightarrow> nat \<Rightarrow> real \<Rightarrow> nat \<Rightarrow> vec3 list \<Rightarrow> vec3 list \<Rightarrow> vec3 list \<times> vec3 list" where
  "twistLoop ts segments theta i ns bs =
     (if i \<le> segments then
        (let n1 = rotateAboutAxis (ts ! i) (theta * real i) (ns ! i);
             b1 = crossVectors (ts ! i) n1
         in twistLoop ts segments theta (Suc i) (ns[i := n1]) (bs[i := b1]))
      else (ns, bs))"
  by pat_completeness auto
termination
  by (relation "measure (\<lambda>(ts, segments, theta, i, ns, bs). Suc segments - i)") auto

declare twistLoop.simps [simp del]

definition twistAngle :: "vec3 list \<Rightarrow> nat \<Rightarrow> vec3 list \<Rightarrow> real" where
  "twistAngle ts segments ns =
     (let theta = arccos (Clamp (dotV (ns ! 0) (ns ! segments)) (- 1) 1) / real segments
      in if dotV (ts ! 0) (crossVectors (ns ! 0) (ns ! segments)) > 0 then - theta else theta)"

text \<open>The frames for given tangents: everything after the first loop. \<open>isClosed\<close> is
  the argument \<^verbatim>\<open>closed\<close>.\<close>

definition framesFor :: "vec3 list \<Rightarrow> nat \<Rightarrow> bool \<Rightarrow> frenet_frames" where
  "framesFor ts segments isClosed =
     (let normal = initialNormal (ts ! 0);
          vec = normalizeVec3 (crossVectors (ts ! 0) normal);
          n0 = crossVectors (ts ! 0) vec;
          b0 = crossVectors (ts ! 0) n0
      in case framesLoop ts segments 1 [n0] [b0] of
           (ns, bs) \<Rightarrow>
             (case (if isClosed then twistLoop ts segments (twistAngle ts segments ns) 1 ns bs
                    else (ns, bs)) of
                (ns1, bs1) \<Rightarrow> \<lparr>tangents = ts, normals = ns1, binormals = bs1\<rparr>))"

definition computeFrenetFrames ::
  "vec3 curve \<Rightarrow> nat \<Rightarrow> bool \<Rightarrow> curve_state \<Rightarrow> frenet_frames \<times> curve_state" where
  "computeFrenetFrames c segments isClosed s =
     (case tangentsLoop c segments 0 [] s of
        (ts, s1) \<Rightarrow> (framesFor ts segments isClosed, s1))"

section \<open>Auxiliary definitions for the statements\<close>

text \<open>The \<open>k\<close>-th sample of a table with \<open>n\<close> divisions, the cumulative length up to
  it, and the table that \<^verbatim>\<open>getLengths\<close> builds.\<close>

definition samplePoint :: "'p curve \<Rightarrow> nat \<Rightarrow> nat \<Rightarrow> 'p" where
  "samplePoint c n k = getPoint c (Finite (real k / real n))"

primrec arcSum :: "'p curve \<Rightarrow> nat \<Rightarrow> nat \<Rightarrow> real" where
  "arcSum c n 0 = 0"
| "arcSum c n (Suc k) =
     arcSum c n k + distanceTo c (samplePoint c n (Suc k)) (samplePoint c n k)"

definition arcTable :: "'p curve \<Rightarrow> nat \<Rightarrow> real list" where
  "arcTable c n = map (arcSum c n) [0..<Suc n]"

definition sampleParams :: "nat \<Rightarrow> jsnum list" where
  "sampleParams n = Finite 0 # map (\<lambda>k. Finite (real k / real n)) [1..<Suc n]"

text \<open>
  A cache is valid for the evaluator when it is unset, flagged for rebuilding, or
  the table of the evaluator at the cache's own division count: the states that
  calls of the methods reach while the evaluator stays the same.
\<close>

definition cacheValid :: "'p curve \<Rightarrow> curve_state \<Rightarrow> bool" where
  "cacheValid c s =
     (case cacheArcLengths s of
        None \<Rightarrow> True
      | Some xs \<Rightarrow> needsUpdate s \<or> xs = arcTable c (length xs - 1))"

text \<open>
  A cached table has the shape of a table when it starts at 0 and never decreases.
  Every table that \<^verbatim>\<open>getLengths\<close> stores has it, also one built from an evaluator
  that has changed since.
\<close>

definition tableShaped :: "real list \<Rightarrow> bool" where
  "tableShaped xs = (xs ! 0 = 0 \<and> (\<forall>i. Suc i < length xs \<longrightarrow> xs ! i \<le> xs ! Suc i))"

definition cacheShaped :: "curve_state \<Rightarrow> bool" where
  "cacheShaped s =
     (case cacheArcLengths s of
        None \<Rightarrow> True
      | Some xs \<Rightarrow> needsUpdate s \<or> tableShaped xs)"

text \<open>
  The remapping as the specification words it (no distance supplied): the largest
  index \<open>i\<close> with \<open>table[i] \<le> target\<close>, then the exact or the interpolated value.
\<close>

definition largestIndexLE :: "real list \<Rightarrow> real \<Rightarrow> nat option" where
  "largestIndexLE table target =
     (case filter (\<lambda>i. table ! i \<le> target) [0..<length table] of
        [] \<Rightarrow> None
      | j # js \<Rightarrow> Some (last (j # js)))"

definition specMapping :: "real list \<Rightarrow> real \<Rightarrow> real option" where
  "specMapping table u =
     (let N = length table; target = u * table ! (N - 1)
      in case largestIndexLE table target of
           None \<Rightarrow> None
         | Some i \<Rightarrow>
             if table ! i = target then Some (real i / real (N - 1))
             else Some ((real i + (target - table ! i) / (table ! (i + 1) - table ! i))
                          / real (N - 1)))"

text \<open>Two curves on the real line, with points that are real numbers: a segment
  from 0 to 4 at uniform speed, and a unit segment that rests during the first half
  and the last quarter of the parameter range.\<close>

definition linePoint :: "jsnum \<Rightarrow> real" where
  "linePoint t = (case t of Finite x \<Rightarrow> 4 * x | _ \<Rightarrow> 0)"

definition pausePoint :: "jsnum \<Rightarrow> real" where
  "pausePoint t = (case t of Finite x \<Rightarrow> min 1 (max 0 (4 * x - 2)) | _ \<Rightarrow> 0)"

definition exLine :: "real curve" where
  "exLine = \<lparr>getPoint = linePoint, distanceTo = (\<lambda>p q. \<bar>p - q\<bar>),
             subV = (\<lambda>p q. p - q), normalizeV = sgn\<rparr>"

definition exPause :: "real curve" where
  "exPause = \<lparr>getPoint = pausePoint, distanceTo = (\<lambda>p q. \<bar>p - q\<bar>),
              subV = (\<lambda>p q. p - q), normalizeV = sgn\<rparr>"

text \<open>The line curve after a first length query, and after \<^verbatim>\<open>updateArcLengths\<close>
  has then been called.\<close>

definition lineQueried :: curve_state where
  "lineQueried = snd (getLengths exLine None (newCurve 4))"

definition lineUpdated :: curve_state where
  "lineUpdated = updateArcLengths exLine lineQueried"

text \<open>The line curve after a length query with 2 divisions, and after a point has
  then been sampled by arc length (which makes a length query of its own, at the
  configured count of 4).\<close>

definition lineCoarse :: curve_state where
  "lineCoarse = snd (getLengths exLine (Some 2) (newCurve 4))"

definition lineSampled :: curve_state where
  "lineSampled = snd (getPointAt exLine (1 / 2) lineCoarse)"

text \<open>The two ways the search can end on a table: at an entry equal to the target,
  or at the last entry below a target that no entry equals.\<close>

definition searchExact :: "real list \<Rightarrow> real \<Rightarrow> int \<Rightarrow> bool" where
  "searchExact xs target r = (0 \<le> r \<and> r < int (length xs) \<and> xs ! nat r = target)"

definition searchBracket :: "real list \<Rightarrow> real \<Rightarrow> int \<Rightarrow> bool" where
  "searchBracket xs target r =
     (- 1 \<le> r \<and> r < int (length xs)
      \<and> (\<forall>j. 0 \<le> j \<and> j \<le> r \<longrightarrow> xs ! nat j < target)
      \<and> (\<forall>j. r < j \<and> j < int (length xs) \<longrightarrow> target < xs ! nat j))"

text \<open>
  A curve in space: an evaluator together with the methods of Vector3 that the base
  class calls on its points.
\<close>

definition curve3 :: "(jsnum \<Rightarrow> vec3) \<Rightarrow> vec3 curve" where
  "curve3 f = \<lparr>getPoint = f, distanceTo = distanceVec3, subV = subVec3,
               normalizeV = normalizeVec3\<rparr>"

text \<open>
  Two such curves: the unit square in the x-z plane, run through from the origin
  along +x and back to the origin along +z; and a segment along the x axis that, from
  its middle on, rises in z with the slope \<^verbatim>\<open>Number.EPSILON\<close>.
\<close>

definition squarePoint :: "jsnum \<Rightarrow> vec3" where
  "squarePoint t =
     (case t of
        Finite x \<Rightarrow>
          if x \<le> 1 / 4 then Vec3 (4 * x) 0 0
          else if x \<le> 1 / 2 then Vec3 1 0 (1 - 4 * x)
          else if x \<le> 3 / 4 then Vec3 (3 - 4 * x) 0 (- 1)
          else Vec3 0 0 (4 * x - 4)
      | _ \<Rightarrow> Vec3 0 0 0)"

definition kinkPoint :: "jsnum \<Rightarrow> vec3" where
  "kinkPoint t =
     (case t of
        Finite x \<Rightarrow>
          if x \<le> 1 / 2 then Vec3 x 0 0 else Vec3 x 0 ((x - 1 / 2) * numberEPSILON)
      | _ \<Rightarrow> Vec3 0 0 0)"

definition exSquare :: "vec3 curve" where
  "exSquare = curve3 squarePoint"

definition exKink :: "vec3 curve" where
  "exKink = curve3 kinkPoint"

text \<open>The frames of these curves for one segment: the segment with the kink as an
  open curve, the square as a closed one.\<close>

definition kinkFrames :: frenet_frames where
  "kinkFrames = fst (computeFrenetFrames exKink 1 False (newCurve 1))"


text \<open>
  What a transport step can add to the product of tangent and normal: nothing when
  the normal is rotated, and the length of the cross product of the two tangents
  when the guard leaves the normal as it is. \<open>slackUpTo ts j\<close> is the sum over the
  first \<open>j\<close> steps.
\<close>

definition transportSlack :: "vec3 \<Rightarrow> vec3 \<Rightarrow> real" where
  "transportSlack tPrev tCur =
     (if lengthV (crossVectors tPrev tCur) > numberEPSILON then 0
      else lengthV (crossVectors tPrev tCur))"

primrec slackUpTo :: "vec3 list \<Rightarrow> nat \<Rightarrow> real" where
  "slackUpTo ts 0 = 0"
| "slackUpTo ts (Suc j) = slackUpTo ts j + transportSlack (ts ! j) (ts ! Suc j)"

definition framesNear :: "vec3 list \<Rightarrow> vec3 list \<Rightarrow> vec3 list \<Rightarrow> nat \<Rightarrow> bool" where
  "framesNear ts ns bs k =
     (length ns = k \<and> length bs = k
      \<and> (\<forall>j<k. dotV (ns ! j) (ns ! j) = 1 \<and> \<bar>dotV (ts ! j) (ns ! j)\<bar> \<le> slackUpTo ts j
                 \<and> bs ! j = crossVectors (ts ! j) (ns ! j)))"

text \<open>
  A curve is non-degenerate when no two of its points coincide whose parameters lie
  in \<open>[0,1]\<close>, differ, and are no further apart than the width \<open>2e-4\<close> of the
  difference quotient of \<^verbatim>\<open>getTangent\<close>: the difference that a sampled tangent
  normalises is then never the zero vector. A closed curve can have this property,
  its two end points being further apart in the parameter.
\<close>

definition nonDegenerate :: "(jsnum \<Rightarrow> vec3) \<Rightarrow> bool" where
  "nonDegenerate f =
     (\<forall>t1 t2. 0 \<le> t1 \<and> t1 < t2 \<and> t2 \<le> 1 \<and> t2 - t1 \<le> 2 / 10000
        \<longrightarrow> f (Finite t1) \<noteq> f (Finite t2))"

text \<open>The frames of the square as an open curve, for one segment: the two tangents
  are the two sides that meet at the seam.\<close>

definition cornerFrames :: frenet_frames where
  "cornerFrames = fst (computeFrenetFrames exSquare 1 False (newCurve 4))"





section \<open>The table that getLengths builds\<close>

lemma lengthsLoop_eq:
  "1 \<le> p \<Longrightarrow> p \<le> Suc n \<Longrightarrow> lastP = samplePoint c n (p - 1) \<Longrightarrow> sumL = arcSum c n (p - 1)
   \<Longrightarrow> cache = map (arcSum c n) [0..<p]
   \<Longrightarrow> lengthsLoop c n p lastP sumL cache s =
       (arcTable c n,
        s\<lparr>evaluated := evaluated s @ map (\<lambda>k. Finite (real k / real n)) [p..<Suc n]\<rparr>)"
proof (induction c n p lastP sumL cache s rule: lengthsLoop.induct)
  case (1 c divisions p lastP sumL cache s)
  show ?case
  proof (cases "p \<le> divisions")
    case True
    obtain k where k: "p = Suc k" using "1.prems"(1) by (cases p) auto
    let ?t = "Finite (real p / real divisions)"
    let ?s1 = "s\<lparr>evaluated := evaluated s @ [?t]\<rparr>"
    let ?cur = "samplePoint c divisions p"
    let ?sum1 = "sumL + distanceTo c ?cur lastP"
    have step: "lengthsLoop c divisions p lastP sumL cache s =
      lengthsLoop c divisions (Suc p) ?cur ?sum1 (cache @ [?sum1]) ?s1"
      using True
      by (subst lengthsLoop.simps) (simp add: callGetPoint_def samplePoint_def Let_def)
    have sum1: "?sum1 = arcSum c divisions p"
      using "1.prems" k by simp
    have "lengthsLoop c divisions (Suc p) ?cur ?sum1 (cache @ [?sum1]) ?s1 =
       (arcTable c divisions,
        ?s1\<lparr>evaluated := evaluated ?s1
            @ map (\<lambda>k. Finite (real k / real divisions)) [Suc p..<Suc divisions]\<rparr>)"
    proof (rule "1.IH"[OF True])
      show "(?cur, ?s1) = callGetPoint c (Finite (real p / real divisions)) s"
        by (simp add: callGetPoint_def samplePoint_def)
      show "?sum1 = sumL + distanceTo c ?cur lastP" by simp
      show "1 \<le> Suc p" by simp
      show "Suc p \<le> Suc divisions" using True by simp
      show "?cur = samplePoint c divisions (Suc p - 1)" by simp
      show "?sum1 = arcSum c divisions (Suc p - 1)" using sum1 by simp
      show "cache @ [?sum1] = map (arcSum c divisions) [0..<Suc p]"
        using "1.prems"(5) sum1 by simp
    qed
    moreover have "[p..<Suc divisions] = p # [Suc p..<Suc divisions]"
      using True by (simp add: upt_conv_Cons)
    ultimately show ?thesis using step by simp
  next
    case False
    with "1.prems" have "p = Suc divisions" by simp
    with False "1.prems" show ?thesis
      by (subst lengthsLoop.simps) (simp add: arcTable_def)
  qed
qed

lemma buildLengths_eq:
  "buildLengths c n s =
     (arcTable c n,
      s\<lparr>cacheArcLengths := Some (arcTable c n), needsUpdate := False,
        evaluated := evaluated s @ sampleParams n\<rparr>)"
proof -
  let ?s1 = "s\<lparr>needsUpdate := False, evaluated := evaluated s @ [Finite 0]\<rparr>"
  have "lengthsLoop c n 1 (getPoint c (Finite 0)) 0 [0] ?s1 =
     (arcTable c n,
      ?s1\<lparr>evaluated := evaluated ?s1 @ map (\<lambda>k. Finite (real k / real n)) [1..<Suc n]\<rparr>)"
    by (rule lengthsLoop_eq) (simp_all add: samplePoint_def)
  then show ?thesis
    by (simp add: buildLengths_def callGetPoint_def sampleParams_def)
qed

lemma length_arcTable [simp]: "length (arcTable c n) = Suc n"
  by (simp add: arcTable_def)

lemma length_sampleParams [simp]: "length (sampleParams n) = Suc n"
  by (simp add: sampleParams_def)

lemma lengthDivisions_pos: "0 < lengthDivisions d s"
  by (simp add: lengthDivisions_def split: option.split)

lemma lengthDivisions_frame [simp]:
  "lengthDivisions d (s\<lparr>cacheArcLengths := x\<rparr>) = lengthDivisions d s"
  "lengthDivisions d (s\<lparr>needsUpdate := y\<rparr>) = lengthDivisions d s"
  "lengthDivisions d (s\<lparr>evaluated := z\<rparr>) = lengthDivisions d s"
  by (simp_all add: lengthDivisions_def split: option.split)

lemma getLengths_length:
  "length (fst (getLengths c d s)) = Suc (lengthDivisions d s)"
  by (simp add: getLengths_def Let_def buildLengths_eq split: option.split)

lemma getLengths_dirty:
  "getLengths c d (s\<lparr>needsUpdate := True\<rparr>) =
     (arcTable c (lengthDivisions d s),
      s\<lparr>cacheArcLengths := Some (arcTable c (lengthDivisions d s)), needsUpdate := False,
        evaluated := evaluated s @ sampleParams (lengthDivisions d s)\<rparr>)"
  by (simp add: getLengths_def Let_def buildLengths_eq split: option.split)


lemma getLengths_valid:
  assumes "cacheValid c s"
  shows "fst (getLengths c d s) = arcTable c (lengthDivisions d s)"
    and "cacheValid c (snd (getLengths c d s))"
  using assms
  by (auto simp add: getLengths_def Let_def buildLengths_eq cacheValid_def
      split: option.splits)

lemma arcTable_nth: "k \<le> n \<Longrightarrow> arcTable c n ! k = arcSum c n k"
  unfolding arcTable_def by (simp del: upt_Suc add: nth_map_upt)

lemma arcSum_step:
  assumes "\<And>p q. 0 \<le> distanceTo c p q"
  shows "arcSum c n k \<le> arcSum c n (Suc k)"
  using assms by simp

lemma arcSum_mono:
  assumes "\<And>p q. 0 \<le> distanceTo c p q" and "j \<le> k"
  shows "arcSum c n j \<le> arcSum c n k"
  using assms(2)
proof (induction k)
  case 0
  then show ?case by simp
next
  case (Suc k)
  show ?case
  proof (cases "j = Suc k")
    case True
    then show ?thesis by simp
  next
    case False
    with Suc have "arcSum c n j \<le> arcSum c n k" by simp
    also have "\<dots> \<le> arcSum c n (Suc k)" using assms(1) by (rule arcSum_step)
    finally show ?thesis .
  qed
qed

lemma pointsLoop_length:
  "length (fst (pointsLoop c n d pts s)) = length pts + (Suc n - d)"
proof (induction c n d pts s rule: pointsLoop.induct)
  case (1 c divisions d points s)
  show ?case
  proof (cases "d \<le> divisions")
    case True
    obtain pt s1 where call: "callGetPoint c (Finite (real d / real divisions)) s = (pt, s1)"
      by (cases "callGetPoint c (Finite (real d / real divisions)) s")
    have "length (fst (pointsLoop c divisions (Suc d) (points @ [pt]) s1)) =
        length (points @ [pt]) + (Suc divisions - Suc d)"
      using "1.IH" [OF True call [symmetric]] .
    with True call show ?thesis
      by (subst pointsLoop.simps) simp
  next
    case False
    then show ?thesis by (subst pointsLoop.simps) simp
  qed
qed

lemma spacedLoop_length:
  "length (fst (spacedLoop c n d pts s)) = length pts + (Suc n - d)"
proof (induction c n d pts s rule: spacedLoop.induct)
  case (1 c divisions d points s)
  show ?case
  proof (cases "d \<le> divisions")
    case True
    obtain pt s1 where call: "getPointAt c (real d / real divisions) s = (pt, s1)"
      by (cases "getPointAt c (real d / real divisions) s")
    have "length (fst (spacedLoop c divisions (Suc d) (points @ [pt]) s1)) =
        length (points @ [pt]) + (Suc divisions - Suc d)"
      using "1.IH" [OF True call [symmetric]] .
    with True call show ?thesis
      by (subst spacedLoop.simps) simp
  next
    case False
    then show ?thesis by (subst spacedLoop.simps) simp
  qed
qed

section \<open>Claims about the arc-length table and its cache\<close>

lemma arcTable_shaped:
  assumes "\<And>p q. 0 \<le> distanceTo c p q"
  shows "tableShaped (arcTable c n)"
proof -
  have "arcTable c n ! i \<le> arcTable c n ! Suc i" if "Suc i < length (arcTable c n)" for i
  proof -
    from that have "Suc i \<le> n" by simp
    then show ?thesis
      using arcSum_step [of c n i] assms by (simp add: arcTable_nth)
  qed
  then show ?thesis by (simp add: tableShaped_def arcTable_nth)
qed

lemma getLengths_shaped:
  assumes "\<And>p q. 0 \<le> distanceTo c p q" and "cacheShaped s"
  shows "tableShaped (fst (getLengths c d s))"
    and "cacheShaped (snd (getLengths c d s))"
  using assms(2) arcTable_shaped [OF assms(1)]
  by (auto simp add: getLengths_def Let_def buildLengths_eq cacheShaped_def
      split: option.splits)

lemma cacheValid_shaped:
  assumes "\<And>p q. 0 \<le> distanceTo c p q" and "cacheValid c s"
  shows "cacheShaped s"
proof (cases "cacheArcLengths s")
  case None
  then show ?thesis by (simp add: cacheShaped_def)
next
  case (Some xs)
  with assms(2) have "needsUpdate s \<or> xs = arcTable c (length xs - 1)"
    by (simp add: cacheValid_def)
  moreover have "tableShaped (arcTable c (length xs - 1))"
    using assms(1) by (rule arcTable_shaped)
  ultimately have "needsUpdate s \<or> tableShaped xs" by auto
  with Some show ?thesis by (simp add: cacheShaped_def)
qed

text \<open>
  Claim C2. For every curve and every positive division count, the table returned by
  \<^verbatim>\<open>getLengths\<close> has exactly \<open>divisions + 1\<close> entries, its first entry is 0, and each
  entry is at least the previous one. The point class is a parameter of the model, so
  that its distance is never negative is a hypothesis; so is that a table in the
  cache, if there is one, has the shape of the tables that \<^verbatim>\<open>getLengths\<close> stores.
\<close>

theorem getLengths_table_shape:
  assumes nonneg: "\<And>p q. 0 \<le> distanceTo c p q"
    and shaped: "cacheShaped s"
    and pos: "0 < divisions"
  shows "length (fst (getLengths c (Some divisions) s)) = divisions + 1
     \<and> fst (getLengths c (Some divisions) s) ! 0 = 0
     \<and> (\<forall>i. Suc i < length (fst (getLengths c (Some divisions) s)) \<longrightarrow>
           fst (getLengths c (Some divisions) s) ! i
             \<le> fst (getLengths c (Some divisions) s) ! Suc i)"
proof -
  have n: "lengthDivisions (Some divisions) s = divisions"
    using pos by (simp add: lengthDivisions_def)
  have len: "length (fst (getLengths c (Some divisions) s)) = divisions + 1"
    using getLengths_length [of c "Some divisions" s] n by simp
  have "tableShaped (fst (getLengths c (Some divisions) s))"
    using nonneg shaped by (rule getLengths_shaped(1))
  then show ?thesis using len by (simp add: tableShaped_def)
qed

theorem getLengths_table_shape_witness:
  "(\<forall>p q. 0 \<le> distanceTo exLine p q) \<and> cacheShaped (newCurve 0) \<and> (0::nat) < 4
   \<and> length (fst (getLengths exLine (Some 4) (newCurve 0))) = 4 + 1
   \<and> fst (getLengths exLine (Some 4) (newCurve 0)) ! 0 = 0
   \<and> fst (getLengths exLine (Some 4) (newCurve 0)) ! 0
       \<le> fst (getLengths exLine (Some 4) (newCurve 0)) ! Suc 0
   \<and> fst (getLengths exLine (Some 4) (newCurve 0)) ! 3
       \<le> fst (getLengths exLine (Some 4) (newCurve 0)) ! Suc 3"
proof -
  have a: "\<And>p q. 0 \<le> distanceTo exLine p q" by (simp add: exLine_def)
  have b: "cacheShaped (newCurve 0)" by (simp add: cacheShaped_def newCurve_def)
  have c: "(0::nat) < 4" by simp
  note shape = getLengths_table_shape [OF a b c]
  from shape have len: "length (fst (getLengths exLine (Some 4) (newCurve 0))) = 4 + 1"
    by (rule conjunct1)
  from shape have first: "fst (getLengths exLine (Some 4) (newCurve 0)) ! 0 = 0"
    by simp
  from shape have mono: "Suc i < length (fst (getLengths exLine (Some 4) (newCurve 0))) \<Longrightarrow>
      fst (getLengths exLine (Some 4) (newCurve 0)) ! i
        \<le> fst (getLengths exLine (Some 4) (newCurve 0)) ! Suc i" for i
    by simp
  have "fst (getLengths exLine (Some 4) (newCurve 0)) ! 0
       \<le> fst (getLengths exLine (Some 4) (newCurve 0)) ! Suc 0"
    by (rule mono) (simp add: len)
  moreover have "fst (getLengths exLine (Some 4) (newCurve 0)) ! 3
       \<le> fst (getLengths exLine (Some 4) (newCurve 0)) ! Suc 3"
    by (rule mono) (simp add: len)
  ultimately show ?thesis using a b len first by simp
qed

text \<open>
  Claim C5, as amended. The cache holds one table. When it holds a table of
  \<open>divisions + 1\<close> entries and the flag is clear, \<^verbatim>\<open>getLengths\<close> returns that table,
  makes no call of the evaluator and leaves the state of the curve unchanged. Every
  call of \<^verbatim>\<open>getLengths\<close> leaves the cache in that condition for its own division
  count, so that a second call with the same count directly after it is such a call.
  A query at another count made in between, also the implicit one at the configured
  count that the sampling methods make, replaces the table.
\<close>

theorem getLengths_cache_reuse:
  assumes "cacheArcLengths s = Some xs"
    and "length xs = lengthDivisions d s + 1"
    and "\<not> needsUpdate s"
  shows "getLengths c d s = (xs, s)
     \<and> evaluated (snd (getLengths c d s)) = evaluated s
     \<and> cacheArcLengths (snd (getLengths c d s0)) = Some (fst (getLengths c d s0))
     \<and> length (fst (getLengths c d s0)) = lengthDivisions d (snd (getLengths c d s0)) + 1
     \<and> \<not> needsUpdate (snd (getLengths c d s0))
     \<and> getLengths c d (snd (getLengths c d s0))
         = (fst (getLengths c d s0), snd (getLengths c d s0))"
proof -
  have hit: "getLengths c d s = (xs, s)"
    using assms by (simp add: getLengths_def Let_def)
  have "cacheArcLengths (snd (getLengths c d s0)) = Some (fst (getLengths c d s0))
     \<and> length (fst (getLengths c d s0)) = lengthDivisions d (snd (getLengths c d s0)) + 1
     \<and> \<not> needsUpdate (snd (getLengths c d s0))
     \<and> getLengths c d (snd (getLengths c d s0))
         = (fst (getLengths c d s0), snd (getLengths c d s0))"
    by (simp add: getLengths_def Let_def buildLengths_eq split: option.split)
  then show ?thesis using hit by simp
qed

theorem getLengths_cache_reuse_witness:
  "cacheArcLengths lineQueried = Some [0, 1, 2, 3, 4]
   \<and> length [0, 1, 2, 3, 4 :: real] = lengthDivisions (Some 4) lineQueried + 1
   \<and> \<not> needsUpdate lineQueried
   \<and> getLengths exLine (Some 4) lineQueried = ([0, 1, 2, 3, 4], lineQueried)
   \<and> evaluated (snd (getLengths exLine (Some 4) lineQueried)) = evaluated lineQueried
   \<and> length (evaluated lineQueried) = 5"
proof -
  have a: "cacheArcLengths lineQueried = Some [0, 1, 2, 3, 4]" by code_simp
  have b: "length [0, 1, 2, 3, 4 :: real] = lengthDivisions (Some 4) lineQueried + 1"
    by code_simp
  have c: "\<not> needsUpdate lineQueried" by code_simp
  have n: "length (evaluated lineQueried) = 5" by code_simp
  show ?thesis
    using getLengths_cache_reuse [OF a b c, of exLine] a b c n by simp
qed

text \<open>
  Claim C5 as stated fails when another query comes between the two calls. On the
  line curve configured with 4 divisions, \<^verbatim>\<open>getLengths(2)\<close> makes 3 calls of the
  evaluator; \<^verbatim>\<open>getPointAt(0.5)\<close> then queries the lengths at the configured count,
  which replaces the cached table (5 calls, and one for the point); the flag is never
  set, and yet the second \<^verbatim>\<open>getLengths(2)\<close> samples the evaluator again (3 more
  calls) and changes the cache.
\<close>

theorem cache_replaced_counterexample:
  "fst (getLengths exLine (Some 2) (newCurve 4)) = [0, 2, 4]
   \<and> \<not> needsUpdate lineCoarse \<and> length (evaluated lineCoarse) = 3
   \<and> \<not> needsUpdate lineSampled \<and> length (evaluated lineSampled) = 9
   \<and> cacheArcLengths lineSampled = Some [0, 1, 2, 3, 4]
   \<and> fst (getLengths exLine (Some 2) lineSampled) = [0, 2, 4]
   \<and> length (evaluated (snd (getLengths exLine (Some 2) lineSampled))) = 12
   \<and> cacheArcLengths (snd (getLengths exLine (Some 2) lineSampled)) = Some [0, 2, 4]
   \<and> snd (getLengths exLine (Some 2) lineSampled) \<noteq> lineSampled"
  by code_simp

text \<open>
  Claim C10. A division count of 0 is taken as an omitted argument:
  \<^verbatim>\<open>getPoints(0)\<close> and \<^verbatim>\<open>getSpacedPoints(0)\<close> use 5 divisions and return 6 points,
  and \<^verbatim>\<open>getLengths(0)\<close> uses the configured count, or 200 when none is configured.
\<close>

theorem zero_divisions_as_omitted:
  "getPoints c (Some 0) s = getPoints c None s
   \<and> length (fst (getPoints c (Some 0) s)) = 6
   \<and> getSpacedPoints c (Some 0) s = getSpacedPoints c None s
   \<and> length (fst (getSpacedPoints c (Some 0) s)) = 6
   \<and> getLengths c (Some 0) s = getLengths c None s
   \<and> length (fst (getLengths c (Some 0) s))
       = (if arcLengthDivisions s \<noteq> 0 then arcLengthDivisions s else 200) + 1"
proof -
  have "lengthDivisions (Some 0) s = lengthDivisions None s"
    by (simp add: lengthDivisions_def)
  then have "getLengths c (Some 0) s = getLengths c None s"
    by (simp add: getLengths_def)
  moreover have "length (fst (getLengths c (Some 0) s))
       = (if arcLengthDivisions s \<noteq> 0 then arcLengthDivisions s else 200) + 1"
    by (simp add: getLengths_length lengthDivisions_def)
  ultimately show ?thesis
    by (simp add: getPoints_def getSpacedPoints_def pointsLoop_length spacedLoop_length)
qed

text \<open>
  Claim C6, as amended. \<^verbatim>\<open>updateArcLengths\<close> sets the flag and performs the length
  query itself: whatever the cache held, the evaluator is sampled at the configured
  (or default) division count, the rebuilt table is stored and the flag is cleared.
  Any \<^verbatim>\<open>getLengths\<close> call on a curve whose flag is set re-samples in the same way,
  for every division argument. A \<^verbatim>\<open>getLengths\<close> call made after
  \<^verbatim>\<open>updateArcLengths\<close> has returned, with that division count, returns the table
  that \<^verbatim>\<open>updateArcLengths\<close> rebuilt and makes no call of the evaluator.
\<close>

theorem updateArcLengths_resamples:
  "updateArcLengths c s =
     s\<lparr>cacheArcLengths := Some (arcTable c (lengthDivisions None s)), needsUpdate := False,
       evaluated := evaluated s @ sampleParams (lengthDivisions None s)\<rparr>
   \<and> length (evaluated (updateArcLengths c s))
       = length (evaluated s) + lengthDivisions None s + 1
   \<and> getLengths c d (s\<lparr>needsUpdate := True\<rparr>) =
       (arcTable c (lengthDivisions d s),
        s\<lparr>cacheArcLengths := Some (arcTable c (lengthDivisions d s)), needsUpdate := False,
          evaluated := evaluated s @ sampleParams (lengthDivisions d s)\<rparr>)
   \<and> getLengths c None (updateArcLengths c s) =
       (arcTable c (lengthDivisions None s), updateArcLengths c s)"
proof -
  have upd: "updateArcLengths c s =
     s\<lparr>cacheArcLengths := Some (arcTable c (lengthDivisions None s)), needsUpdate := False,
       evaluated := evaluated s @ sampleParams (lengthDivisions None s)\<rparr>"
    by (simp add: updateArcLengths_def getLengths_dirty)
  have next_query: "getLengths c None (updateArcLengths c s) =
       (arcTable c (lengthDivisions None s), updateArcLengths c s)"
    unfolding upd by (simp add: getLengths_def Let_def)
  show ?thesis
    using next_query by (simp add: upd getLengths_dirty)
qed

text \<open>
  Claim C6 as stated fails: on the line curve with 4 divisions, queried once and then
  invalidated with \<^verbatim>\<open>updateArcLengths\<close>, the next \<^verbatim>\<open>getLengths\<close> call (same division
  count) makes no call of the evaluator: the ten calls logged are the five of the first
  query and the five made inside \<^verbatim>\<open>updateArcLengths\<close>.
\<close>

theorem query_after_updateArcLengths_counterexample:
  "evaluated (snd (getLengths exLine None lineUpdated)) = evaluated lineUpdated
   \<and> length (evaluated lineQueried) = 5
   \<and> length (evaluated lineUpdated) = 10
   \<and> length (evaluated (snd (getLengths exLine None lineUpdated))) = 10"
  by code_simp

section \<open>Claims about the parameter remapper\<close>

text \<open>
  Claim C4, as amended. When a non-zero absolute distance is supplied, the target arc
  length of the search is exactly that distance and \<open>u\<close> is ignored: the result is the
  search and interpolation for that distance on the table of the length query. A
  supplied distance of 0 fails the test \<^verbatim>\<open>if (distance)\<close> and is treated as an
  omitted argument: the target is \<open>u\<close> times the last table entry.
\<close>

theorem supplied_distance_target:
  assumes "d \<noteq> 0"
  shows "targetArcLength u (Some d) arcLengths = Some d
     \<and> getUtoTmapping c u (Some d) s
         = (mapTarget (fst (getLengths c None s)) (Some d), snd (getLengths c None s))
     \<and> getUtoTmapping c u (Some d) s = getUtoTmapping c u' (Some d) s
     \<and> targetArcLength u (Some 0) arcLengths = targetArcLength u None arcLengths
     \<and> getUtoTmapping c u (Some 0) s = getUtoTmapping c u None s
     \<and> getUtoTmapping c u (Some 0) s
         = (mapTarget (fst (getLengths c None s))
              (Some (u * last (fst (getLengths c None s)))),
            snd (getLengths c None s))"
proof -
  let ?table = "fst (getLengths c None s)"
  have "length ?table = Suc (lengthDivisions None s)" by (rule getLengths_length)
  then have ne: "?table \<noteq> []" by auto
  have "elemAt ?table (int (length ?table) - 1) = Some (?table ! (length ?table - 1))"
    using ne by (simp add: elemAt_def nat_diff_distrib')
  then have omitted: "targetArcLength u None ?table = Some (u * last ?table)"
    using ne by (simp add: targetArcLength_def last_conv_nth)
  have supplied: "targetArcLength v (Some d) xs = Some d" for v xs
    using assms by (simp add: targetArcLength_def)
  have zero: "targetArcLength v (Some 0) xs = targetArcLength v None xs" for v xs
    by (simp add: targetArcLength_def)
  have unfolded: "getUtoTmapping c v dist s
      = (mapTarget ?table (targetArcLength v dist ?table), snd (getLengths c None s))"
    for v dist
    by (simp add: getUtoTmapping_def split: prod.split)
  have a: "getUtoTmapping c v (Some d) s = (mapTarget ?table (Some d), snd (getLengths c None s))"
    for v
    by (simp only: unfolded supplied)
  have b: "getUtoTmapping c u (Some 0) s = getUtoTmapping c u None s"
    by (simp only: unfolded zero)
  have e: "getUtoTmapping c u (Some 0) s
      = (mapTarget ?table (Some (u * last ?table)), snd (getLengths c None s))"
    by (simp only: unfolded zero omitted)
  show ?thesis
    using supplied [of u arcLengths] a [of u] a [of u'] zero [of u arcLengths] b e
    by simp
qed

theorem supplied_distance_target_witness:
  "(7 / 2 :: real) \<noteq> 0
   \<and> targetArcLength 1 (Some (7 / 2)) [0, 1, 2, 3, 4] = Some (7 / 2)
   \<and> fst (getLengths exLine None (newCurve 4)) = [0, 1, 2, 3, 4]
   \<and> fst (getUtoTmapping exLine 1 (Some (7 / 2)) (newCurve 4))
       = mapTarget [0, 1, 2, 3, 4] (Some (7 / 2))
   \<and> mapTarget [0, 1, 2, 3, 4] (Some (7 / 2)) = Finite (7 / 8)
   \<and> getUtoTmapping exLine 1 (Some (7 / 2)) (newCurve 4)
       = getUtoTmapping exLine 0 (Some (7 / 2)) (newCurve 4)
   \<and> targetArcLength 1 (Some 0) [0, 1, 2, 3, 4] = targetArcLength 1 None [0, 1, 2, 3, 4]
   \<and> getUtoTmapping exLine 1 (Some 0) (newCurve 4) = getUtoTmapping exLine 1 None (newCurve 4)
   \<and> fst (getUtoTmapping exLine 1 (Some 0) (newCurve 4)) = mapTarget [0, 1, 2, 3, 4] (Some 4)"
proof -
  have d: "(7 / 2 :: real) \<noteq> 0" by simp
  have table: "fst (getLengths exLine None (newCurve 4)) = [0, 1, 2, 3, 4]"
    by code_simp
  have val: "mapTarget [0, 1, 2, 3, 4] (Some (7 / 2)) = Finite (7 / 8)"
    by code_simp
  note th = supplied_distance_target [OF d, of 1 "[0, 1, 2, 3, 4]" exLine "newCurve 4" 0]
  from th have target: "targetArcLength 1 (Some (7 / 2)) [0, 1, 2, 3, 4] = Some (7 / 2)"
    by (rule conjunct1)
  from th have pinned: "getUtoTmapping exLine 1 (Some (7 / 2)) (newCurve 4)
      = (mapTarget (fst (getLengths exLine None (newCurve 4))) (Some (7 / 2)),
         snd (getLengths exLine None (newCurve 4)))"
    by (elim conjE)
  from th have ignored: "getUtoTmapping exLine 1 (Some (7 / 2)) (newCurve 4)
       = getUtoTmapping exLine 0 (Some (7 / 2)) (newCurve 4)"
    by (elim conjE)
  from th have zero: "targetArcLength 1 (Some 0) [0, 1, 2, 3, 4]
       = targetArcLength 1 None [0, 1, 2, 3, 4]"
    by (elim conjE)
  from th have omitted: "getUtoTmapping exLine 1 (Some 0) (newCurve 4)
       = getUtoTmapping exLine 1 None (newCurve 4)"
    by (elim conjE)
  from th have "getUtoTmapping exLine 1 (Some 0) (newCurve 4)
       = (mapTarget (fst (getLengths exLine None (newCurve 4)))
            (Some (1 * last (fst (getLengths exLine None (newCurve 4))))),
          snd (getLengths exLine None (newCurve 4)))"
    by (elim conjE)
  then have product: "fst (getUtoTmapping exLine 1 (Some 0) (newCurve 4))
       = mapTarget [0, 1, 2, 3, 4] (Some 4)"
    by (simp add: table)
  have pinned': "fst (getUtoTmapping exLine 1 (Some (7 / 2)) (newCurve 4))
       = mapTarget [0, 1, 2, 3, 4] (Some (7 / 2))"
    by (simp add: pinned table)
  show ?thesis
    using d target table pinned' val ignored zero omitted product
    by (intro conjI)
qed

text \<open>
  Claim C4 as stated fails for the supplied distance 0: on the line curve of length 4
  the target for \<open>u = 1\<close> is 4, not the supplied 0, and the result depends on \<open>u\<close>.
\<close>

theorem zero_distance_counterexample:
  "targetArcLength 1 (Some 0) (fst (getLengths exLine None (newCurve 4))) = Some 4
   \<and> fst (getUtoTmapping exLine 1 (Some 0) (newCurve 4)) = Finite 1
   \<and> fst (getUtoTmapping exLine 0 (Some 0) (newCurve 4)) = Finite 0"
  by code_simp

section \<open>Claims about tangents\<close>

text \<open>
  Claim C7. For every \<open>t\<close> in \<open>[0,1]\<close> the fallback \<^verbatim>\<open>getTangent(t)\<close> is the
  normalised difference of the evaluator at \<open>t2 = min (t + 1e-4) 1\<close> and at
  \<open>t1 = max (t - 1e-4) 0\<close>; these two are the only calls of the evaluator it makes,
  and both parameters lie in \<open>[0,1]\<close>.
\<close>

theorem getTangent_central_difference:
  assumes "0 \<le> t" and "t \<le> 1"
  shows "fst (getTangent c (Finite t) s) =
       normalizeV c (subV c (getPoint c (Finite (min (t + 1 / 10000) 1)))
                          (getPoint c (Finite (max (t - 1 / 10000) 0))))
     \<and> evaluated (snd (getTangent c (Finite t) s)) =
         evaluated s @ [Finite (max (t - 1 / 10000) 0), Finite (min (t + 1 / 10000) 1)]
     \<and> 0 \<le> max (t - 1 / 10000) 0 \<and> max (t - 1 / 10000) 0 \<le> 1
     \<and> 0 \<le> min (t + 1 / 10000) 1 \<and> min (t + 1 / 10000) 1 \<le> 1"
proof -
  have cap_low: "max a 0 = (if a < 0 then 0 else a)" for a :: real
    by auto
  have cap_high: "min a 1 = (if a > 1 then 1 else a)" for a :: real
    by auto
  have "getTangent c (Finite t) s =
     (normalizeV c (subV c (getPoint c (Finite (min (t + 1 / 10000) 1)))
                          (getPoint c (Finite (max (t - 1 / 10000) 0)))),
      s\<lparr>evaluated := evaluated s
          @ [Finite (max (t - 1 / 10000) 0), Finite (min (t + 1 / 10000) 1)]\<rparr>)"
    unfolding getTangent_def Let_def callGetPoint_def cap_low cap_high
    by simp
  then show ?thesis using assms by simp
qed

theorem getTangent_central_difference_witness:
  "(0::real) \<le> 0 \<and> (0::real) \<le> 1
   \<and> fst (getTangent exLine (Finite 0) (newCurve 4)) =
       normalizeV exLine (subV exLine (getPoint exLine (Finite (min (0 + 1 / 10000) 1)))
                                 (getPoint exLine (Finite (max (0 - 1 / 10000) 0))))
   \<and> evaluated (snd (getTangent exLine (Finite 0) (newCurve 4))) =
       evaluated (newCurve 4) @ [Finite (max (0 - 1 / 10000) 0), Finite (min (0 + 1 / 10000) 1)]
   \<and> max (0 - 1 / 10000) 0 = (0::real) \<and> min (0 + 1 / 10000) 1 = (1 / 10000 :: real)"
proof -
  have a: "(0::real) \<le> 0" and b: "(0::real) \<le> 1" by simp_all
  show ?thesis
    using getTangent_central_difference [OF a b, of exLine "newCurve 4"] by simp
qed

section \<open>The binary search\<close>

lemma binarySearch_mid:
  "\<lfloor>real_of_int low + real_of_int (high - low) / 2\<rfloor> = low + (high - low) div 2"
proof -
  have "\<lfloor>real_of_int (high - low) / real_of_int 2\<rfloor> = (high - low) div 2"
    by (rule floor_divide_of_int_eq)
  then have "\<lfloor>real_of_int (high - low) / 2\<rfloor> = (high - low) div 2"
    by simp
  moreover have "\<lfloor>real_of_int low + real_of_int (high - low) / 2\<rfloor>
      = low + \<lfloor>real_of_int (high - low) / 2\<rfloor>"
    by (rule int_add_floor [symmetric])
  ultimately show ?thesis by (simp only:)
qed

lemma binarySearch_step:
  assumes "low \<le> high" and "i = low + (high - low) div 2"
    and "0 \<le> low" and "high < int (length xs)"
  shows "binarySearch xs target low high =
     (if xs ! nat i < target then binarySearch xs target (i + 1) high
      else if target < xs ! nat i then binarySearch xs target low (i - 1)
      else i)"
proof -
  have "low \<le> i \<and> i \<le> high" using assms(1,2) by presburger
  then have "elemAt xs i = Some (xs ! nat i)"
    using assms(3,4) by (simp add: elemAt_def)
  then show ?thesis
    using assms(1,2)
    by (subst binarySearch.simps) (simp only: binarySearch_mid Let_def, simp)
qed

lemma binarySearch_result:
  assumes "sorted xs" and "0 \<le> low" and "high < int (length xs)" and "low \<le> high + 1"
    and "\<forall>j. 0 \<le> j \<and> j < low \<longrightarrow> xs ! nat j < target"
    and "\<forall>j. high < j \<and> j < int (length xs) \<longrightarrow> target < xs ! nat j"
  shows "searchExact xs target (binarySearch xs target low high)
       \<or> searchBracket xs target (binarySearch xs target low high)"
  using assms
proof (induction "nat (high - low + 1)" arbitrary: low high rule: less_induct)
  case less
  show ?case
  proof (cases "low \<le> high")
    case False
    with less.prems have eq: "low = high + 1" by simp
    have "binarySearch xs target low high = high"
      using False by (subst binarySearch.simps) simp
    moreover have "searchBracket xs target high"
      unfolding searchBracket_def using less.prems eq by auto
    ultimately show ?thesis by simp
  next
    case True
    define i where "i = low + (high - low) div 2"
    have bounds: "low \<le> i \<and> i \<le> high" using True unfolding i_def by presburger
    have inr: "0 \<le> i \<and> i < int (length xs)" using bounds less.prems by simp
    note step = binarySearch_step [OF True i_def less.prems(2,3), of target]
    consider (lt) "xs ! nat i < target" | (gt) "target < xs ! nat i" | (eq) "xs ! nat i = target"
      by linarith
    then show ?thesis
    proof cases
      case lt
      have below: "\<forall>j. 0 \<le> j \<and> j < i + 1 \<longrightarrow> xs ! nat j < target"
      proof (intro allI impI)
        fix j assume j: "0 \<le> j \<and> j < i + 1"
        then have "nat j \<le> nat i" by auto
        moreover have "nat i < length xs" using inr by auto
        ultimately have "xs ! nat j \<le> xs ! nat i"
          using \<open>sorted xs\<close> by (simp add: sorted_nth_mono)
        with lt show "xs ! nat j < target" by simp
      qed
      have "searchExact xs target (binarySearch xs target (i + 1) high)
          \<or> searchBracket xs target (binarySearch xs target (i + 1) high)"
      proof (rule less.hyps)
        show "nat (high - (i + 1) + 1) < nat (high - low + 1)" using bounds by simp
        show "sorted xs" by fact
        show "0 \<le> i + 1" using inr by simp
        show "high < int (length xs)" by fact
        show "i + 1 \<le> high + 1" using bounds by simp
        show "\<forall>j. 0 \<le> j \<and> j < i + 1 \<longrightarrow> xs ! nat j < target" by fact
        show "\<forall>j. high < j \<and> j < int (length xs) \<longrightarrow> target < xs ! nat j" by fact
      qed
      with step lt show ?thesis by simp
    next
      case gt
      have above: "\<forall>j. i - 1 < j \<and> j < int (length xs) \<longrightarrow> target < xs ! nat j"
      proof (intro allI impI)
        fix j assume j: "i - 1 < j \<and> j < int (length xs)"
        then have "nat i \<le> nat j" by auto
        moreover have "nat j < length xs" using j inr by auto
        ultimately have "xs ! nat i \<le> xs ! nat j"
          using \<open>sorted xs\<close> by (simp add: sorted_nth_mono)
        with gt show "target < xs ! nat j" by simp
      qed
      have "searchExact xs target (binarySearch xs target low (i - 1))
          \<or> searchBracket xs target (binarySearch xs target low (i - 1))"
      proof (rule less.hyps)
        show "nat (i - 1 - low + 1) < nat (high - low + 1)" using bounds by simp
        show "sorted xs" by fact
        show "0 \<le> low" by fact
        show "i - 1 < int (length xs)" using inr by simp
        show "low \<le> i - 1 + 1" using bounds by simp
        show "\<forall>j. 0 \<le> j \<and> j < low \<longrightarrow> xs ! nat j < target" by fact
        show "\<forall>j. i - 1 < j \<and> j < int (length xs) \<longrightarrow> target < xs ! nat j" by fact
      qed
      with step gt show ?thesis by simp
    next
      case eq
      then have "binarySearch xs target low high = i" using step by simp
      moreover have "searchExact xs target i"
        unfolding searchExact_def using inr eq by simp
      ultimately show ?thesis by simp
    qed
  qed
qed

lemma search_whole_table:
  assumes "sorted xs"
  shows "searchExact xs target (binarySearch xs target 0 (int (length xs) - 1))
       \<or> searchBracket xs target (binarySearch xs target 0 (int (length xs) - 1))"
  by (rule binarySearch_result [OF assms]) simp_all

lemma mapTarget_exact:
  assumes "searchExact xs target (binarySearch xs target 0 (int (length xs) - 1))"
    and "2 \<le> length xs"
  shows "mapTarget xs (Some target) =
       Finite (real_of_int (binarySearch xs target 0 (int (length xs) - 1))
                / real (length xs - 1))"
proof -
  let ?r = "binarySearch xs target 0 (int (length xs) - 1)"
  have "elemAt xs ?r = Some target"
    using assms(1) by (simp add: searchExact_def elemAt_def)
  moreover have "real_of_int (int (length xs) - 1) = real (length xs - 1)"
    using assms(2) by simp
  moreover have "real (length xs - 1) \<noteq> 0" using assms(2) by simp
  ultimately show ?thesis
    by (simp add: mapTarget_def Let_def jsDivide_def)
qed

lemma mapTarget_interpolate:
  assumes r: "r = binarySearch xs target 0 (int (length xs) - 1)"
    and "0 \<le> r" and "r + 1 < int (length xs)"
    and "xs ! nat r < target" and "target < xs ! (nat r + 1)"
  shows "mapTarget xs (Some target) =
       Finite ((real_of_int r + (target - xs ! nat r) / (xs ! (nat r + 1) - xs ! nat r))
                / real (length xs - 1))"
proof -
  have e1: "elemAt xs r = Some (xs ! nat r)"
    using assms(2,3) by (simp add: elemAt_def)
  have "nat (r + 1) = nat r + 1" using assms(2) by simp
  then have e2: "elemAt xs (r + 1) = Some (xs ! (nat r + 1))"
    using assms(2,3) by (simp add: elemAt_def)
  have ne: "xs ! nat r \<noteq> target" using assms(4) by simp
  have seg: "xs ! (nat r + 1) - xs ! nat r \<noteq> 0" using assms(4,5) by simp
  have len: "real_of_int (int (length xs) - 1) = real (length xs - 1)"
    using assms(2,3) by simp
  have len0: "real (length xs - 1) \<noteq> 0" using assms(2,3) by simp
  show ?thesis
    unfolding mapTarget_def Let_def r [symmetric] option.case e1 e2 len
    using ne seg len0 by (simp add: jsDivide_def add.commute)
qed

section \<open>Facts about built tables\<close>

lemma arcTable_sorted:
  assumes "\<And>p q. 0 \<le> distanceTo c p q"
  shows "sorted (arcTable c n)"
proof -
  have "arcTable c n ! i \<le> arcTable c n ! j" if "i \<le> j" and "j < length (arcTable c n)" for i j
  proof -
    from that have "j \<le> n" and "i \<le> n" by simp_all
    then show ?thesis
      using arcSum_mono [OF assms that(1), where n = n] by (simp add: arcTable_nth)
  qed
  then show ?thesis by (simp add: sorted_iff_nth_mono)
qed

lemma arcTable_last: "last (arcTable c n) = arcSum c n n"
proof -
  have "last (arcTable c n) = arcTable c n ! (length (arcTable c n) - 1)"
    by (rule last_conv_nth) (simp add: arcTable_def)
  then show ?thesis by (simp add: arcTable_nth)
qed

lemma arcSum_nonneg:
  assumes "\<And>p q. 0 \<le> distanceTo c p q"
  shows "0 \<le> arcSum c n k"
  using arcSum_mono [OF assms, where j = 0 and k = k and n = n] by simp

lemma arcSum_equal_points:
  assumes nonneg: "\<And>p q. 0 \<le> distanceTo c p q"
    and separated: "\<And>p q. distanceTo c p q = 0 \<Longrightarrow> p = q"
    and "j \<le> k" and "arcSum c n j = arcSum c n k"
  shows "samplePoint c n j = samplePoint c n k"
  using assms(3,4)
proof (induction k)
  case 0
  then show ?case by simp
next
  case (Suc k)
  show ?case
  proof (cases "j = Suc k")
    case True
    then show ?thesis by simp
  next
    case False
    with Suc.prems have jk: "j \<le> k" by simp
    have lo: "arcSum c n j \<le> arcSum c n k" using nonneg jk by (rule arcSum_mono)
    have d: "0 \<le> distanceTo c (samplePoint c n (Suc k)) (samplePoint c n k)"
      by (rule nonneg)
    have "arcSum c n j = arcSum c n k
        + distanceTo c (samplePoint c n (Suc k)) (samplePoint c n k)"
      using Suc.prems(2) by simp
    with lo d have eq: "arcSum c n j = arcSum c n k"
      and zero: "distanceTo c (samplePoint c n (Suc k)) (samplePoint c n k) = 0"
      by linarith+
    have "samplePoint c n j = samplePoint c n k" using jk eq by (rule Suc.IH)
    moreover have "samplePoint c n (Suc k) = samplePoint c n k"
      using zero by (rule separated)
    ultimately show ?thesis by simp
  qed
qed

lemma targetArcLength_omitted:
  assumes "xs \<noteq> []"
  shows "targetArcLength u None xs = Some (u * last xs)"
proof -
  have "elemAt xs (int (length xs) - 1) = Some (xs ! (length xs - 1))"
    using assms by (simp add: elemAt_def nat_diff_distrib')
  then show ?thesis
    using assms by (simp add: targetArcLength_def last_conv_nth)
qed

lemma getUtoTmapping_omitted:
  "fst (getUtoTmapping c u None s) =
     mapTarget (fst (getLengths c None s)) (targetArcLength u None (fst (getLengths c None s)))"
  by (simp add: getUtoTmapping_def split: prod.split)

lemma largestIndexLE_eq:
  assumes "m < length xs" and "xs ! m \<le> target"
    and "\<forall>j. m < j \<and> j < length xs \<longrightarrow> target < xs ! j"
  shows "largestIndexLE xs target = Some m"
proof -
  have "filter (\<lambda>i. xs ! i \<le> target) [0..<N] \<noteq> []
      \<and> last (filter (\<lambda>i. xs ! i \<le> target) [0..<N]) = m"
    if "m < N" and "N \<le> length xs" for N
    using that
  proof (induction N)
    case 0
    then show ?case by simp
  next
    case (Suc N)
    show ?case
    proof (cases "m = N")
      case True
      then show ?thesis using assms(2) by simp
    next
      case False
      with Suc.prems have "m < N" and "N < length xs" by simp_all
      with assms(3) have "target < xs ! N" by simp
      with Suc.IH \<open>m < N\<close> \<open>N < length xs\<close> show ?thesis by simp
    qed
  qed
  from this [OF assms(1) le_refl]
  have ne: "filter (\<lambda>i. xs ! i \<le> target) [0..<length xs] \<noteq> []"
    and la: "last (filter (\<lambda>i. xs ! i \<le> target) [0..<length xs]) = m"
    by simp_all
  from ne obtain y ys where ys: "filter (\<lambda>i. xs ! i \<le> target) [0..<length xs] = y # ys"
    by (cases "filter (\<lambda>i. xs ! i \<le> target) [0..<length xs]") auto
  with la have "last (y # ys) = m" by simp
  then show ?thesis
    unfolding largestIndexLE_def ys by simp
qed

lemma search_on_arcTable:
  assumes nonneg: "\<And>p q. 0 \<le> distanceTo c p q"
    and "0 \<le> target" and "target \<le> arcSum c n n"
    and r: "r = binarySearch (arcTable c n) target 0 (int n)"
  shows "searchExact (arcTable c n) target r
       \<or> (searchBracket (arcTable c n) target r \<and> 0 \<le> r \<and> r < int n)"
proof -
  have "int (length (arcTable c n)) - 1 = int n" by simp
  with search_whole_table [OF arcTable_sorted [OF nonneg], where n1 = n and target = target] r
  have cases: "searchExact (arcTable c n) target r \<or> searchBracket (arcTable c n) target r"
    by simp
  show ?thesis
  proof (cases "searchExact (arcTable c n) target r")
    case True
    then show ?thesis by simp
  next
    case False
    with cases have br: "searchBracket (arcTable c n) target r" by simp
    then have range: "- 1 \<le> r" "r \<le> int n"
      and below: "\<forall>j. 0 \<le> j \<and> j \<le> r \<longrightarrow> arcTable c n ! nat j < target"
      and above: "\<forall>j. r < j \<and> j \<le> int n \<longrightarrow> target < arcTable c n ! nat j"
      by (simp_all add: searchBracket_def)
    have "r \<noteq> - 1"
    proof
      assume "r = - 1"
      then have "target < arcTable c n ! nat 0" using spec [OF above, of 0] by simp
      then show False using \<open>0 \<le> target\<close> by (simp add: arcTable_nth)
    qed
    moreover have "r \<noteq> int n"
    proof
      assume "r = int n"
      then have "arcTable c n ! nat (int n) < target"
        using spec [OF below, of "int n"] by simp
      then show False using \<open>target \<le> arcSum c n n\<close> by (simp add: arcTable_nth)
    qed
    ultimately show ?thesis using br range by simp
  qed
qed

text \<open>
  Claim C3, as amended. With no distance supplied and \<open>u\<close> in \<open>[0,1]\<close>, the search
  on the table ends at an index \<open>i\<close> with \<open>table[i] \<le> target\<close>, where
  \<open>target = u * table[N-1]\<close>. If \<open>table[i] = target\<close> the result is \<open>i / (N - 1)\<close>;
  this \<open>i\<close> is an index that holds the target, not always the largest one. Otherwise
  \<open>i\<close> is the largest index with \<open>table[i] \<le> target\<close> and the result is the
  interpolated \<open>(i + (target - table[i]) / (table[i+1] - table[i])) / (N - 1)\<close>.
  Whenever no entry after \<open>i\<close> equals the target (in particular when the table has no
  repeated entry), \<open>i\<close> is the largest index and the result is the value that the
  specification's wording gives.
\<close>

theorem remap_search_and_interpolation:
  assumes nonneg: "\<And>p q. 0 \<le> distanceTo c p q"
    and valid: "cacheValid c s"
    and u: "0 \<le> u" "u \<le> 1"
    and tbl: "table = fst (getLengths c None s)"
    and tgt: "target = u * last table"
    and idx: "i = binarySearch table target 0 (int (length table) - 1)"
  shows "targetArcLength u None table = Some target
     \<and> 0 \<le> i \<and> i < int (length table) \<and> table ! nat i \<le> target
     \<and> (table ! nat i = target \<longrightarrow>
          fst (getUtoTmapping c u None s) = Finite (real_of_int i / real (length table - 1)))
     \<and> (table ! nat i \<noteq> target \<longrightarrow>
          largestIndexLE table target = Some (nat i)
          \<and> nat i + 1 < length table
          \<and> fst (getUtoTmapping c u None s) =
              Finite ((real_of_int i
                         + (target - table ! nat i) / (table ! (nat i + 1) - table ! nat i))
                       / real (length table - 1)))
     \<and> ((\<forall>j. nat i < j \<and> j < length table \<longrightarrow> table ! j \<noteq> target) \<longrightarrow>
          largestIndexLE table target = Some (nat i)
          \<and> map_option Finite (specMapping table u) = Some (fst (getUtoTmapping c u None s)))"
proof -
  define n where "n = lengthDivisions None s"
  have npos: "0 < n" unfolding n_def by (rule lengthDivisions_pos)
  have table: "table = arcTable c n"
    unfolding tbl n_def by (rule getLengths_valid(1) [OF valid])
  have len: "length table = Suc n" unfolding table by simp
  have ne: "table \<noteq> []" using len by auto
  have total: "last table = arcSum c n n" unfolding table by (rule arcTable_last)
  have total_nonneg: "0 \<le> arcSum c n n" using nonneg by (rule arcSum_nonneg)
  have t0: "0 \<le> target" unfolding tgt total using u(1) total_nonneg by simp
  have t1: "target \<le> arcSum c n n"
    unfolding tgt total using u total_nonneg by (simp add: mult_left_le_one_le)
  have tal: "targetArcLength u None table = Some target"
    unfolding tgt by (rule targetArcLength_omitted [OF ne])
  have res: "fst (getUtoTmapping c u None s) = mapTarget table (Some target)"
    unfolding getUtoTmapping_omitted tbl [symmetric] tal ..
  have i: "i = binarySearch (arcTable c n) target 0 (int n)"
    unfolding idx table by simp
  have sorted: "sorted table" unfolding table using nonneg by (rule arcTable_sorted)
  have spec_target: "u * table ! (length table - 1) = target"
    unfolding tgt using ne by (simp add: last_conv_nth)
  note cases = search_on_arcTable [OF nonneg t0 t1 i]
  show ?thesis
  proof (cases "searchExact table target i")
    case True
    then have range: "0 \<le> i" "i < int (length table)" and hit: "table ! nat i = target"
      by (simp_all add: searchExact_def)
    have exact: "mapTarget table (Some target) =
        Finite (real_of_int i / real (length table - 1))"
      using mapTarget_exact [of table target] True idx len npos by simp
    have largest: "largestIndexLE table target = Some (nat i)
        \<and> map_option Finite (specMapping table u)
            = Some (fst (getUtoTmapping c u None s))"
      if no_later: "\<forall>j. nat i < j \<and> j < length table \<longrightarrow> table ! j \<noteq> target"
    proof -
      have above: "\<forall>j. nat i < j \<and> j < length table \<longrightarrow> target < table ! j"
      proof (intro allI impI)
        fix j assume j: "nat i < j \<and> j < length table"
        then have "table ! nat i \<le> table ! j"
          using sorted by (simp add: sorted_nth_mono)
        moreover have "table ! j \<noteq> target" using no_later j by simp
        ultimately show "target < table ! j" using hit by simp
      qed
      have li: "largestIndexLE table target = Some (nat i)"
        by (rule largestIndexLE_eq) (use range hit above in simp_all)
      have "specMapping table u = Some (real (nat i) / real (length table - 1))"
        unfolding specMapping_def Let_def spec_target li using hit by simp
      then show ?thesis using li res exact range by simp
    qed
    show ?thesis using tal range hit res exact largest by simp
  next
    case False
    with cases table have br: "searchBracket table target i"
      and range: "0 \<le> i" "i < int n" by simp_all
    have inat: "nat i < n" using range by simp
    from br range have below: "table ! nat i < target"
      by (simp add: searchBracket_def)
    from br have "\<forall>j. i < j \<and> j < int (length table) \<longrightarrow> target < table ! nat j"
      by (simp add: searchBracket_def)
    then have above: "\<forall>j. nat i < j \<and> j < length table \<longrightarrow> target < table ! j"
    proof (intro allI impI)
      fix j assume a: "\<forall>j. i < j \<and> j < int (length table) \<longrightarrow> target < table ! nat j"
        and j: "nat i < j \<and> j < length table"
      then have "i < int j \<and> int j < int (length table)" using range by auto
      with a have "target < table ! nat (int j)" by blast
      then show "target < table ! j" by simp
    qed
    then have next_entry: "target < table ! (nat i + 1)"
      using inat len by simp
    have interp: "mapTarget table (Some target) =
        Finite ((real_of_int i
                   + (target - table ! nat i) / (table ! (nat i + 1) - table ! nat i))
                 / real (length table - 1))"
      by (rule mapTarget_interpolate) (use idx range len below next_entry in simp_all)
    have li: "largestIndexLE table target = Some (nat i)"
      by (rule largestIndexLE_eq) (use inat len below above in simp_all)
    have "specMapping table u =
        Some ((real (nat i) + (target - table ! nat i) / (table ! (nat i + 1) - table ! nat i))
               / real (length table - 1))"
      unfolding specMapping_def Let_def spec_target li using below by simp
    then have "map_option Finite (specMapping table u)
        = Some (fst (getUtoTmapping c u None s))"
      using res interp range by simp
    then show ?thesis
      using tal range inat len below res interp li by simp
  qed
qed

theorem remap_search_and_interpolation_witness:
  "(\<forall>p q. 0 \<le> distanceTo exLine p q) \<and> cacheValid exLine (newCurve 4)
   \<and> (0::real) \<le> 1 / 3 \<and> (1 / 3 :: real) \<le> 1
   \<and> fst (getLengths exLine None (newCurve 4)) = [0, 1, 2, 3, 4]
   \<and> binarySearch [0, 1, 2, 3, 4] (4 / 3) 0 4 = 1
   \<and> largestIndexLE [0, 1, 2, 3, 4] (4 / 3) = Some 1
   \<and> fst (getUtoTmapping exLine (1 / 3) None (newCurve 4))
       = Finite ((1 + (4 / 3 - 1) / (2 - 1)) / 4)"
proof -
  have a: "\<And>p q. 0 \<le> distanceTo exLine p q" by (simp add: exLine_def)
  have b: "cacheValid exLine (newCurve 4)" by (simp add: cacheValid_def newCurve_def)
  have u0: "(0::real) \<le> 1 / 3" and u1: "(1 / 3 :: real) \<le> 1" by simp_all
  have tbl: "fst (getLengths exLine None (newCurve 4)) = [0, 1, 2, 3, 4]" by code_simp
  have idx: "binarySearch [0, 1, 2, 3, 4] (4 / 3) 0 4 = 1" by code_simp
  note th = remap_search_and_interpolation [OF a b u0 u1 refl refl refl]
  have "largestIndexLE [0, 1, 2, 3, 4] (4 / 3) = Some 1
      \<and> fst (getUtoTmapping exLine (1 / 3) None (newCurve 4))
          = Finite ((1 + (4 / 3 - 1) / (2 - 1)) / 4)"
    using th unfolding tbl by (simp add: idx)
  then show ?thesis using a b tbl idx by simp
qed

text \<open>
  Claim C3 as stated fails where several entries equal the target. The curve that
  rests has the table \<open>[0, 0, 0, 1, 1]\<close>; for \<open>u = 1\<close> the target is 1, the largest
  index with an entry at most 1 is 4 and the claimed result is \<open>4 / 4 = 1\<close>, but the
  search stops at index 3 and the code returns \<open>3 / 4\<close>.
\<close>

theorem largest_index_counterexample:
  "fst (getLengths exPause None (newCurve 4)) = [0, 0, 0, 1, 1]
   \<and> targetArcLength 1 None [0, 0, 0, 1, 1] = Some 1
   \<and> largestIndexLE [0, 0, 0, 1, 1] 1 = Some 4
   \<and> specMapping [0, 0, 0, 1, 1] 1 = Some 1
   \<and> binarySearch [0, 0, 0, 1, 1] 1 0 4 = 3
   \<and> fst (getUtoTmapping exPause 1 None (newCurve 4)) = Finite (3 / 4)"
  by code_simp

section \<open>The end points of the remapping\<close>

lemma remap_at_entry:
  assumes nonneg: "\<And>p q. 0 \<le> distanceTo c p q"
    and valid: "cacheValid c s"
    and n: "n = lengthDivisions None s"
    and u: "0 \<le> u" "u \<le> 1"
    and k: "k \<le> n" "u * arcSum c n n = arcSum c n k"
  shows "\<exists>m\<le>n. arcSum c n m = arcSum c n k
            \<and> fst (getUtoTmapping c u None s) = Finite (real m / real n)"
proof -
  define target where "target = arcSum c n k"
  define r where "r = binarySearch (arcTable c n) target 0 (int n)"
  have npos: "0 < n" unfolding n by (rule lengthDivisions_pos)
  have table: "fst (getLengths c None s) = arcTable c n"
    unfolding n by (rule getLengths_valid(1) [OF valid])
  have t0: "0 \<le> target" unfolding target_def using nonneg by (rule arcSum_nonneg)
  have t1: "target \<le> arcSum c n n"
    unfolding target_def using nonneg k(1) by (rule arcSum_mono)
  have tal: "targetArcLength u None (arcTable c n) = Some target"
    using targetArcLength_omitted [of "arcTable c n" u] k(2)
    by (simp add: arcTable_last target_def arcTable_def)
  have res: "fst (getUtoTmapping c u None s) = mapTarget (arcTable c n) (Some target)"
    unfolding getUtoTmapping_omitted table tal ..
  have exact: "searchExact (arcTable c n) target r"
  proof (rule ccontr)
    assume "\<not> searchExact (arcTable c n) target r"
    with search_on_arcTable [OF nonneg t0 t1 r_def]
    have br: "searchBracket (arcTable c n) target r" and range: "0 \<le> r" "r < int n"
      by simp_all
    from br have below: "\<forall>j. 0 \<le> j \<and> j \<le> r \<longrightarrow> arcTable c n ! nat j < target"
      and above: "\<forall>j. r < j \<and> j < int (length (arcTable c n)) \<longrightarrow> target < arcTable c n ! nat j"
      by (simp_all add: searchBracket_def)
    have entry: "arcTable c n ! nat (int k) = target"
      using k(1) by (simp add: arcTable_nth target_def)
    show False
    proof (cases "int k \<le> r")
      case True
      then have "arcTable c n ! nat (int k) < target"
        using spec [OF below, of "int k"] by simp
      then show False using entry by simp
    next
      case False
      then have "target < arcTable c n ! nat (int k)"
        using spec [OF above, of "int k"] k(1) by simp
      then show False using entry by simp
    qed
  qed
  then have range: "0 \<le> r" "r \<le> int n" and hit: "arcTable c n ! nat r = target"
    by (simp_all add: searchExact_def)
  have mapped: "mapTarget (arcTable c n) (Some target) = Finite (real_of_int r / real n)"
    using mapTarget_exact [of "arcTable c n" target] exact npos
    by (simp add: r_def)
  have cast: "real_of_int r = real (nat r)" using range by simp
  have m: "nat r \<le> n" using range by simp
  then have sum: "arcSum c n (nat r) = arcSum c n k"
    using hit by (simp add: arcTable_nth target_def)
  have "fst (getUtoTmapping c u None s) = Finite (real (nat r) / real n)"
    unfolding res mapped cast ..
  with m sum show ?thesis by blast
qed

lemma getPointAt_fst:
  "fst (getPointAt c u s) = getPoint c (fst (getUtoTmapping c u None s))"
  by (simp add: getPointAt_def callGetPoint_def split: prod.split)

lemma remap_zero:
  assumes nonneg: "\<And>p q. 0 \<le> distanceTo c p q"
    and valid: "cacheValid c s"
    and n: "n = lengthDivisions None s"
    and first: "arcSum c n 1 \<noteq> 0"
  shows "fst (getUtoTmapping c 0 None s) = Finite 0"
proof -
  obtain m where m: "m \<le> n" "arcSum c n m = arcSum c n 0"
    "fst (getUtoTmapping c 0 None s) = Finite (real m / real n)"
    using remap_at_entry [OF nonneg valid n, of 0 0] by auto
  have "m = 0"
  proof (rule ccontr)
    assume "m \<noteq> 0"
    then have "1 \<le> m" by simp
    then have "arcSum c n 1 \<le> arcSum c n m" by (rule arcSum_mono [OF nonneg])
    moreover have "0 \<le> arcSum c n 1" using nonneg by (rule arcSum_nonneg)
    ultimately show False using m(2) first by simp
  qed
  then show ?thesis using m(3) by simp
qed

lemma remap_one:
  assumes nonneg: "\<And>p q. 0 \<le> distanceTo c p q"
    and valid: "cacheValid c s"
    and n: "n = lengthDivisions None s"
    and final: "arcSum c n (n - 1) \<noteq> arcSum c n n"
  shows "fst (getUtoTmapping c 1 None s) = Finite 1"
proof -
  have npos: "0 < n" unfolding n by (rule lengthDivisions_pos)
  obtain m where m: "m \<le> n" "arcSum c n m = arcSum c n n"
    "fst (getUtoTmapping c 1 None s) = Finite (real m / real n)"
    using remap_at_entry [OF nonneg valid n, of 1 n] by auto
  have "m = n"
  proof (rule ccontr)
    assume "m \<noteq> n"
    with m(1) have "m \<le> n - 1" by simp
    then have "arcSum c n m \<le> arcSum c n (n - 1)" by (rule arcSum_mono [OF nonneg])
    moreover have "arcSum c n (n - 1) \<le> arcSum c n n"
      by (rule arcSum_mono [OF nonneg]) simp
    ultimately show False using m(2) final by simp
  qed
  then show ?thesis using m(3) npos by simp
qed

text \<open>
  Claim C1, as amended. For every curve whose distance is non-negative and zero only
  between equal points, and whose cached table (if any) was built from the evaluator,
  \<^verbatim>\<open>getPointAt(0)\<close> equals \<^verbatim>\<open>getPoint(0)\<close> and \<^verbatim>\<open>getPointAt(1)\<close> equals
  \<^verbatim>\<open>getPoint(1)\<close>. The remapping returns \<open>t = 0\<close> for \<open>u = 0\<close> when the first
  segment of the table has non-zero length, and \<open>t = 1\<close> for \<open>u = 1\<close> when the last
  segment has non-zero length.
\<close>

theorem remap_boundary:
  assumes nonneg: "\<And>p q. 0 \<le> distanceTo c p q"
    and separated: "\<And>p q. distanceTo c p q = 0 \<Longrightarrow> p = q"
    and valid: "cacheValid c s"
  shows "fst (getPointAt c 0 s) = getPoint c (Finite 0)
     \<and> fst (getPointAt c 1 s) = getPoint c (Finite 1)
     \<and> (fst (getLengths c None s) ! 1 \<noteq> 0 \<longrightarrow>
          fst (getUtoTmapping c 0 None s) = Finite 0)
     \<and> (fst (getLengths c None s) ! (length (fst (getLengths c None s)) - 2)
          \<noteq> last (fst (getLengths c None s)) \<longrightarrow>
          fst (getUtoTmapping c 1 None s) = Finite 1)"
proof -
  define n where "n = lengthDivisions None s"
  have npos: "0 < n" unfolding n_def by (rule lengthDivisions_pos)
  have table: "fst (getLengths c None s) = arcTable c n"
    unfolding n_def by (rule getLengths_valid(1) [OF valid])
  have first: "samplePoint c n 0 = getPoint c (Finite 0)"
    by (simp add: samplePoint_def)
  have final: "samplePoint c n n = getPoint c (Finite 1)"
    using npos by (simp add: samplePoint_def)
  obtain m0 where m0: "m0 \<le> n" "arcSum c n m0 = arcSum c n 0"
    "fst (getUtoTmapping c 0 None s) = Finite (real m0 / real n)"
    using remap_at_entry [OF nonneg valid n_def, of 0 0] by auto
  obtain m1 where m1: "m1 \<le> n" "arcSum c n m1 = arcSum c n n"
    "fst (getUtoTmapping c 1 None s) = Finite (real m1 / real n)"
    using remap_at_entry [OF nonneg valid n_def, of 1 n] by auto
  have "samplePoint c n 0 = samplePoint c n m0"
    by (rule arcSum_equal_points [OF nonneg separated]) (use m0 in simp_all)
  then have p0: "fst (getPointAt c 0 s) = getPoint c (Finite 0)"
    using first m0(3) by (simp add: getPointAt_fst samplePoint_def)
  have "samplePoint c n m1 = samplePoint c n n"
    by (rule arcSum_equal_points [OF nonneg separated]) (use m1 in simp_all)
  then have p1: "fst (getPointAt c 1 s) = getPoint c (Finite 1)"
    using final m1(3) by (simp add: getPointAt_fst samplePoint_def)
  have t0: "fst (getUtoTmapping c 0 None s) = Finite 0"
    if "fst (getLengths c None s) ! 1 \<noteq> 0"
  proof -
    from that npos have "arcSum c n 1 \<noteq> 0" by (simp add: table arcTable_nth)
    then show ?thesis by (rule remap_zero [OF nonneg valid n_def])
  qed
  have t1: "fst (getUtoTmapping c 1 None s) = Finite 1"
    if "fst (getLengths c None s) ! (length (fst (getLengths c None s)) - 2)
          \<noteq> last (fst (getLengths c None s))"
  proof -
    from that npos have "arcSum c n (n - 1) \<noteq> arcSum c n n"
      by (simp add: table arcTable_nth arcTable_last)
    then show ?thesis by (rule remap_one [OF nonneg valid n_def])
  qed
  show ?thesis using p0 p1 t0 t1 by simp
qed

theorem remap_boundary_witness:
  "(\<forall>p q. 0 \<le> distanceTo exLine p q) \<and> (\<forall>p q. distanceTo exLine p q = \<bar>p - q\<bar>)
   \<and> cacheValid exLine (newCurve 4)
   \<and> fst (getLengths exLine None (newCurve 4)) ! 1 \<noteq> 0
   \<and> fst (getLengths exLine None (newCurve 4)) ! (length (fst (getLengths exLine None (newCurve 4))) - 2)
       \<noteq> last (fst (getLengths exLine None (newCurve 4)))
   \<and> fst (getPointAt exLine 0 (newCurve 4)) = getPoint exLine (Finite 0)
   \<and> fst (getPointAt exLine 1 (newCurve 4)) = getPoint exLine (Finite 1)
   \<and> fst (getUtoTmapping exLine 0 None (newCurve 4)) = Finite 0
   \<and> fst (getUtoTmapping exLine 1 None (newCurve 4)) = Finite 1"
proof -
  have a: "\<And>p q. 0 \<le> distanceTo exLine p q" by (simp add: exLine_def)
  have b: "\<And>p q. distanceTo exLine p q = 0 \<Longrightarrow> p = q" by (simp add: exLine_def)
  have c: "cacheValid exLine (newCurve 4)" by (simp add: cacheValid_def newCurve_def)
  have tbl: "fst (getLengths exLine None (newCurve 4)) = [0, 1, 2, 3, 4]" by code_simp
  have d: "fst (getLengths exLine None (newCurve 4)) ! 1 \<noteq> 0" unfolding tbl by simp
  have e: "fst (getLengths exLine None (newCurve 4))
             ! (length (fst (getLengths exLine None (newCurve 4))) - 2)
       \<noteq> last (fst (getLengths exLine None (newCurve 4)))" unfolding tbl by simp
  have f: "\<And>p q. distanceTo exLine p q = \<bar>p - q\<bar>" by (simp add: exLine_def)
  show ?thesis using remap_boundary [OF a b c] a c d e f by simp
qed

text \<open>
  Claim C1 as stated fails in its second half: on the curve that rests at both ends
  (table \<open>[0, 0, 0, 1, 1]\<close>) the remapping returns \<open>t = 1/2\<close> for \<open>u = 0\<close> and
  \<open>t = 3/4\<close> for \<open>u = 1\<close>.
\<close>

theorem remap_boundary_counterexample:
  "fst (getUtoTmapping exPause 0 None (newCurve 4)) = Finite (1 / 2)
   \<and> fst (getUtoTmapping exPause 1 None (newCurve 4)) = Finite (3 / 4)"
  by code_simp

section \<open>Vector algebra\<close>

lemma dotV_commute: "dotV a b = dotV b a"
  by (simp add: dotV_def mult.commute)

lemma dotV_nonneg: "0 \<le> dotV v v"
  by (simp add: dotV_def)

lemma lengthV_unit: "lengthV v = 1 \<longleftrightarrow> dotV v v = 1"
  by (simp add: lengthV_def)

lemma lengthV_pos: "0 < lengthV v \<longleftrightarrow> 0 < dotV v v"
  by (simp add: lengthV_def)

lemma dotV_cross_left [simp]: "dotV a (crossVectors a b) = 0"
  by (simp add: dotV_def crossVectors_def algebra_simps)

lemma dotV_cross_right [simp]: "dotV b (crossVectors a b) = 0"
  by (simp add: dotV_def crossVectors_def algebra_simps)

lemma dotV_cross_left' [simp]: "dotV (crossVectors a b) a = 0"
  by (simp add: dotV_def crossVectors_def algebra_simps)

lemma dotV_cross_right' [simp]: "dotV (crossVectors a b) b = 0"
  by (simp add: dotV_def crossVectors_def algebra_simps)

lemma lagrange:
  "dotV (crossVectors a b) (crossVectors a b) = dotV a a * dotV b b - dotV a b * dotV a b"
  by (simp add: dotV_def crossVectors_def algebra_simps)

lemma cross_unit:
  assumes "dotV a a = 1" and "dotV b b = 1" and "dotV a b = 0"
  shows "dotV (crossVectors a b) (crossVectors a b) = 1"
  using assms by (simp add: lagrange)

lemma normalizeVec3_unit:
  assumes "0 < dotV v v"
  shows "dotV (normalizeVec3 v) (normalizeVec3 v) = 1"
proof -
  have pos: "0 < lengthV v" using assms by (simp add: lengthV_pos)
  have sq: "lengthV v * lengthV v = dotV v v"
    using dotV_nonneg [of v] by (simp add: lengthV_def)
  have "dotV (normalizeVec3 v) (normalizeVec3 v) = dotV v v / (lengthV v * lengthV v)"
    using pos by (simp add: normalizeVec3_def dotV_def add_divide_distrib)
  then show ?thesis using sq assms by simp
qed

lemma normalizeVec3_dot:
  assumes "0 < dotV v v"
  shows "dotV w (normalizeVec3 v) = dotV w v / lengthV v"
  using assms by (simp add: normalizeVec3_def lengthV_pos dotV_def add_divide_distrib)

lemma rotate_dot:
  assumes "dotV k k = 1"
  shows "dotV (rotateAboutAxis k th a) (rotateAboutAxis k th b) = dotV a b"
proof -
  obtain k1 k2 k3 where k: "k = Vec3 k1 k2 k3" by (cases k)
  obtain a1 a2 a3 where a: "a = Vec3 a1 a2 a3" by (cases a)
  obtain b1 b2 b3 where b: "b = Vec3 b1 b2 b3" by (cases b)
  define c where "c = cos th"
  define s where "s = sin th"
  have cs: "c * c + s * s = 1" unfolding c_def s_def
    using sin_cos_squared_add2 [of th] by (simp add: power2_eq_square)
  have kk: "k1 * k1 + k2 * k2 + k3 * k3 = 1" using assms by (simp add: k dotV_def)
  show ?thesis
    unfolding k a b rotateAboutAxis_def Let_def dotV_def vec3.sel
      c_def [symmetric] s_def [symmetric]
    using cs kk by algebra
qed

lemma rotate_axis:
  assumes "dotV k k = 1"
  shows "rotateAboutAxis k th k = k"
proof -
  obtain k1 k2 k3 where k: "k = Vec3 k1 k2 k3" by (cases k)
  have kk: "k1 * k1 + k2 * k2 + k3 * k3 = 1" using assms by (simp add: k dotV_def)
  have "(1 - cos th) * k1 * k1 * k1 + (1 - cos th) * k1 * k2 * k2 + (1 - cos th) * k1 * k3 * k3
      = (1 - cos th) * k1 * (k1 * k1 + k2 * k2 + k3 * k3)"
    and "(1 - cos th) * k1 * k2 * k1 + (1 - cos th) * k2 * k2 * k2 + (1 - cos th) * k2 * k3 * k3
      = (1 - cos th) * k2 * (k1 * k1 + k2 * k2 + k3 * k3)"
    and "(1 - cos th) * k1 * k3 * k1 + (1 - cos th) * k2 * k3 * k2 + (1 - cos th) * k3 * k3 * k3
      = (1 - cos th) * k3 * (k1 * k1 + k2 * k2 + k3 * k3)"
    by (simp_all add: algebra_simps)
  then show ?thesis
    unfolding k rotateAboutAxis_def Let_def vec3.sel kk
    by (simp add: algebra_simps)
qed

text \<open>The rotation about \<open>a \<times> b\<close> by the angle between the unit vectors \<open>a\<close> and
  \<open>b\<close> takes \<open>a\<close> to \<open>b\<close>.\<close>

lemma rotate_onto:
  assumes a: "dotV a a = 1" and b: "dotV b b = 1"
    and w: "0 < dotV (crossVectors a b) (crossVectors a b)"
  shows "rotateAboutAxis (normalizeVec3 (crossVectors a b))
           (arccos (Clamp (dotV a b) (- 1) 1)) a = b"
proof -
  define c where "c = dotV a b"
  define L where "L = lengthV (crossVectors a b)"
  have Lpos: "0 < L" unfolding L_def using w by (simp add: lengthV_pos)
  have LL: "L * L = 1 - c * c"
    unfolding L_def c_def lengthV_def using w a b by (simp add: lagrange)
  have "0 < L * L" using Lpos by simp
  then have c2: "c * c < 1" using LL by simp
  have crange: "- 1 < c \<and> c < 1"
  proof -
    have "\<bar>c\<bar> < 1" using c2 abs_square_less_1 [of c] by (simp add: power2_eq_square)
    then show ?thesis by auto
  qed
  have clamp: "Clamp c (- 1) 1 = c" using crange by (simp add: Clamp_def)
  have cosv: "cos (arccos c) = c" using crange by simp
  have "sin (arccos c) = sqrt (1 - c\<^sup>2)" using crange by (simp add: sin_arccos)
  also have "\<dots> = sqrt (L * L)" using LL by (simp add: power2_eq_square)
  also have "\<dots> = L" using Lpos by simp
  finally have sinv: "sin (arccos c) = L" .
  obtain a1 a2 a3 where av: "a = Vec3 a1 a2 a3" by (cases a)
  obtain b1 b2 b3 where bv: "b = Vec3 b1 b2 b3" by (cases b)
  define w1 where "w1 = a2 * b3 - a3 * b2"
  define w2 where "w2 = a3 * b1 - a1 * b3"
  define w3 where "w3 = a1 * b2 - a2 * b1"
  have wv: "crossVectors a b = Vec3 w1 w2 w3"
    by (simp add: av bv crossVectors_def w1_def w2_def w3_def)
  have nv: "normalizeVec3 (crossVectors a b) = Vec3 (w1 / L) (w2 / L) (w3 / L)"
  proof -
    have "lengthV (Vec3 w1 w2 w3) = L" unfolding L_def wv ..
    then show ?thesis using Lpos by (simp add: normalizeVec3_def wv)
  qed
  have aa: "a1 * a1 + a2 * a2 + a3 * a3 = 1" using a by (simp add: av dotV_def)
  have cc: "c = a1 * b1 + a2 * b2 + a3 * b3" by (simp add: c_def av bv dotV_def)
  have orth: "w1 * a1 + w2 * a2 + w3 * a3 = 0"
    by (simp add: w1_def w2_def w3_def algebra_simps)
  have x: "((1 - c) * (w1 / L) * (w1 / L) + c) * a1
         + ((1 - c) * (w1 / L) * (w2 / L) - L * (w3 / L)) * a2
         + ((1 - c) * (w1 / L) * (w3 / L) + L * (w2 / L)) * a3 = b1"
  proof -
    have "((1 - c) * (w1 / L) * (w1 / L) + c) * a1
         + ((1 - c) * (w1 / L) * (w2 / L) - L * (w3 / L)) * a2
         + ((1 - c) * (w1 / L) * (w3 / L) + L * (w2 / L)) * a3
        = (1 - c) * (w1 / L) * ((w1 * a1 + w2 * a2 + w3 * a3) / L)
          + c * a1 + (w2 * a3 - w3 * a2)"
      using Lpos by (simp add: field_simps)
    also have "\<dots> = c * a1 + (w2 * a3 - w3 * a2)" by (simp add: orth)
    also have "\<dots> = b1"
      unfolding w2_def w3_def cc using aa by algebra
    finally show ?thesis .
  qed
  have y: "((1 - c) * (w1 / L) * (w2 / L) + L * (w3 / L)) * a1
         + ((1 - c) * (w2 / L) * (w2 / L) + c) * a2
         + ((1 - c) * (w2 / L) * (w3 / L) - L * (w1 / L)) * a3 = b2"
  proof -
    have "((1 - c) * (w1 / L) * (w2 / L) + L * (w3 / L)) * a1
         + ((1 - c) * (w2 / L) * (w2 / L) + c) * a2
         + ((1 - c) * (w2 / L) * (w3 / L) - L * (w1 / L)) * a3
        = (1 - c) * (w2 / L) * ((w1 * a1 + w2 * a2 + w3 * a3) / L)
          + c * a2 + (w3 * a1 - w1 * a3)"
      using Lpos by (simp add: field_simps)
    also have "\<dots> = c * a2 + (w3 * a1 - w1 * a3)" by (simp add: orth)
    also have "\<dots> = b2"
      unfolding w1_def w3_def cc using aa by algebra
    finally show ?thesis .
  qed
  have z: "((1 - c) * (w1 / L) * (w3 / L) - L * (w2 / L)) * a1
         + ((1 - c) * (w2 / L) * (w3 / L) + L * (w1 / L)) * a2
         + ((1 - c) * (w3 / L) * (w3 / L) + c) * a3 = b3"
  proof -
    have "((1 - c) * (w1 / L) * (w3 / L) - L * (w2 / L)) * a1
         + ((1 - c) * (w2 / L) * (w3 / L) + L * (w1 / L)) * a2
         + ((1 - c) * (w3 / L) * (w3 / L) + c) * a3
        = (1 - c) * (w3 / L) * ((w1 * a1 + w2 * a2 + w3 * a3) / L)
          + c * a3 + (w1 * a2 - w2 * a1)"
      using Lpos by (simp add: field_simps)
    also have "\<dots> = c * a3 + (w1 * a2 - w2 * a1)" by (simp add: orth)
    also have "\<dots> = b3"
      unfolding w1_def w2_def cc using aa by algebra
    finally show ?thesis .
  qed
  show ?thesis
    unfolding c_def [symmetric] clamp nv rotateAboutAxis_def Let_def vec3.sel cosv sinv
    using x y z by (simp add: av bv)
qed

section \<open>The first frame\<close>

lemma numberEPSILON_pos: "0 < numberEPSILON"
  by (simp add: numberEPSILON_def)

lemma numberMAX_VALUE_ge_1: "1 \<le> numberMAX_VALUE"
proof -
  have "(1::real) \<le> 2 - 1 / 2 ^ 52" by simp
  moreover have "(1::real) \<le> 2 ^ 1023" by (rule one_le_power) simp
  ultimately have "(1::real) * 1 \<le> (2 - 1 / 2 ^ 52) * 2 ^ 1023"
    by (rule mult_mono) simp_all
  then show ?thesis by (simp only: numberMAX_VALUE_def mult_1)
qed

lemma abs_component_le_1:
  assumes "p * p + q * q + r * r = (1::real)"
  shows "\<bar>p\<bar> \<le> 1"
proof -
  have "0 \<le> q * q" and "0 \<le> r * r" by simp_all
  with assms have "p * p \<le> 1" by linarith
  then show ?thesis using abs_square_le_1 [of p] by (simp add: power2_eq_square)
qed

lemma smallest_component:
  assumes "p * p + q * q + r * r = (1::real)" and "\<bar>p\<bar> \<le> \<bar>q\<bar>"
  shows "p * p < 1"
proof -
  have "p * p \<le> q * q"
    using assms(2) abs_le_square_iff [of p q] by (simp add: power2_eq_square)
  moreover have "0 \<le> r * r" by simp
  ultimately have "2 * (p * p) \<le> 1" using assms(1) by linarith
  then show ?thesis by linarith
qed

lemma initialNormal_choice:
  assumes "dotV t t = 1"
  shows "dotV (initialNormal t) (initialNormal t) = 1
       \<and> dotV t (initialNormal t) * dotV t (initialNormal t) < 1"
proof -
  obtain p q r where t: "t = Vec3 p q r" by (cases t)
  have sum: "p * p + q * q + r * r = 1" using assms by (simp add: t dotV_def)
  have sum2: "q * q + p * p + r * r = 1" and sum3: "r * r + p * p + q * q = 1"
    and sum4: "q * q + r * r + p * p = 1" and sum5: "p * p + r * r + q * q = 1"
    using sum by simp_all
  have px: "\<bar>p\<bar> \<le> numberMAX_VALUE"
    using abs_component_le_1 [OF sum] numberMAX_VALUE_ge_1 by linarith
  show ?thesis
  proof (cases "\<bar>q\<bar> \<le> \<bar>p\<bar>")
    case qp: True
    show ?thesis
    proof (cases "\<bar>r\<bar> \<le> \<bar>q\<bar>")
      case True
      then have "initialNormal t = Vec3 0 0 1"
        using px qp by (simp add: initialNormal_def t)
      moreover have "\<bar>r\<bar> \<le> \<bar>p\<bar>" using True qp by linarith
      then have "r * r < 1" by (rule smallest_component [OF sum3])
      ultimately show ?thesis by (simp add: dotV_def t)
    next
      case False
      then have "initialNormal t = Vec3 0 1 0"
        using px qp by (simp add: initialNormal_def t)
      moreover have "q * q < 1" using sum2 qp by (rule smallest_component)
      ultimately show ?thesis by (simp add: dotV_def t)
    qed
  next
    case qp: False
    show ?thesis
    proof (cases "\<bar>r\<bar> \<le> \<bar>p\<bar>")
      case True
      then have "initialNormal t = Vec3 0 0 1"
        using px qp by (simp add: initialNormal_def t)
      moreover have "r * r < 1" using sum3 True by (rule smallest_component)
      ultimately show ?thesis by (simp add: dotV_def t)
    next
      case False
      then have "initialNormal t = Vec3 1 0 0"
        using px qp by (simp add: initialNormal_def t)
      moreover have "\<bar>p\<bar> \<le> \<bar>q\<bar>" using qp by linarith
      then have "p * p < 1" by (rule smallest_component [OF sum])
      ultimately show ?thesis by (simp add: dotV_def t)
    qed
  qed
qed

lemma initial_frame:
  assumes t: "dotV t t = 1"
  defines "vec \<equiv> normalizeVec3 (crossVectors t (initialNormal t))"
  shows "dotV (crossVectors t vec) (crossVectors t vec) = 1"
    and "dotV t (crossVectors t vec) = 0"
proof -
  from initialNormal_choice [OF t]
  have e: "dotV (initialNormal t) (initialNormal t) = 1"
    and m: "dotV t (initialNormal t) * dotV t (initialNormal t) < 1" by simp_all
  have w: "0 < dotV (crossVectors t (initialNormal t)) (crossVectors t (initialNormal t))"
    using t e m by (simp add: lagrange)
  have unit: "dotV vec vec = 1" unfolding vec_def using w by (rule normalizeVec3_unit)
  have "dotV t vec = 0" unfolding vec_def using w by (simp add: normalizeVec3_dot)
  with t unit show "dotV (crossVectors t vec) (crossVectors t vec) = 1"
    by (simp add: cross_unit)
  show "dotV t (crossVectors t vec) = 0" by simp
qed

lemma tangentsLoop_length:
  "length (fst (tangentsLoop c n i ts s)) = length ts + (Suc n - i)"
proof (induction c n i ts s rule: tangentsLoop.induct)
  case (1 c segments i ts s)
  show ?case
  proof (cases "i \<le> segments")
    case True
    obtain tg s1 where call: "tangentAtStep c i segments s = (tg, s1)"
      by (cases "tangentAtStep c i segments s")
    have "length (fst (tangentsLoop c segments (Suc i) (ts @ [normalizeV c tg]) s1)) =
        length (ts @ [normalizeV c tg]) + (Suc segments - Suc i)"
      using "1.IH" [OF True call [symmetric]] .
    with True call show ?thesis
      by (subst tangentsLoop.simps) simp
  next
    case False
    then show ?thesis by (subst tangentsLoop.simps) simp
  qed
qed

section \<open>The frames of an arbitrary curve with unit tangents\<close>

lemma gram:
  "(dotV a (crossVectors b c))\<^sup>2 =
     dotV a a * (dotV b b * dotV c c - (dotV b c)\<^sup>2)
     - dotV a b * (dotV a b * dotV c c - dotV b c * dotV a c)
     + dotV a c * (dotV a b * dotV b c - dotV b b * dotV a c)"
  by (cases a; cases b; cases c)
    (simp add: dotV_def crossVectors_def power2_eq_square algebra_simps)

lemma transportSlack_bounds:
  shows "0 \<le> transportSlack tp tc" and "transportSlack tp tc \<le> numberEPSILON"
  using numberEPSILON_pos by (simp_all add: transportSlack_def lengthV_def dotV_nonneg)

lemma slackUpTo_bound: "0 \<le> slackUpTo ts j \<and> slackUpTo ts j \<le> real j * numberEPSILON"
proof (induction j)
  case 0
  show ?case by simp
next
  case (Suc j)
  have lo: "0 \<le> transportSlack (ts ! j) (ts ! Suc j)"
    by (rule transportSlack_bounds(1))
  have hi: "transportSlack (ts ! j) (ts ! Suc j) \<le> numberEPSILON"
    by (rule transportSlack_bounds(2))
  from Suc lo hi show ?case by (simp add: algebra_simps)
qed

lemma slackUpTo_zero:
  assumes "\<forall>k<j. lengthV (crossVectors (ts ! k) (ts ! Suc k)) = 0
              \<or> lengthV (crossVectors (ts ! k) (ts ! Suc k)) > numberEPSILON"
  shows "slackUpTo ts j = 0"
  using assms
proof (induction j)
  case 0
  show ?case by simp
next
  case (Suc j)
  then have "slackUpTo ts j = 0" by simp
  moreover have "transportSlack (ts ! j) (ts ! Suc j) = 0"
    using Suc.prems by (auto simp add: transportSlack_def)
  ultimately show ?case by simp
qed

text \<open>A normal that the guard leaves as it is: its product with the new tangent
  exceeds the product with the old one by at most the length of the cross product of
  the two tangents.\<close>

lemma unrotated_normal:
  assumes tp: "dotV tp tp = 1" and tc: "dotV tc tc = 1" and n: "dotV n n = 1"
  shows "\<bar>dotV tc n\<bar> \<le> \<bar>dotV tp n\<bar> + lengthV (crossVectors tp tc)"
proof -
  define a where "a = dotV tp n"
  define b where "b = dotV tc n"
  define c where "c = dotV tp tc"
  define ww where "ww = dotV (crossVectors tp tc) (crossVectors tp tc)"
  have ww: "ww = 1 - c * c" unfolding ww_def c_def using tp tc by (simp add: lagrange)
  have ww0: "0 \<le> ww" unfolding ww_def by (rule dotV_nonneg)
  have "(dotV tp (crossVectors tc n))\<^sup>2 = 1 - a * a - b * b - c * c + 2 * a * b * c"
    unfolding gram using tp tc n
    by (simp add: a_def b_def c_def dotV_commute power2_eq_square algebra_simps)
  then have g: "0 \<le> 1 - a * a - b * b - c * c + 2 * a * b * c"
    by (metis zero_le_power2)
  have "ww - (b - c * a) * (b - c * a)
      = (1 - a * a - b * b - c * c + 2 * a * b * c) + a * a * ww"
    unfolding ww by (simp add: algebra_simps)
  moreover have "0 \<le> a * a * ww" using ww0 by simp
  ultimately have "(b - c * a) * (b - c * a) \<le> ww" using g by linarith
  then have "sqrt ((b - c * a) * (b - c * a)) \<le> sqrt ww" by (rule real_sqrt_le_mono)
  then have d: "\<bar>b - c * a\<bar> \<le> lengthV (crossVectors tp tc)"
    by (simp add: lengthV_def ww_def)
  have "c * c \<le> 1" using ww ww0 by simp
  then have "\<bar>c\<bar> \<le> 1" using abs_square_le_1 [of c] by (simp add: power2_eq_square)
  then have "\<bar>c\<bar> * \<bar>a\<bar> \<le> 1 * \<bar>a\<bar>" by (rule mult_right_mono) simp
  then have "\<bar>c * a\<bar> \<le> \<bar>a\<bar>" by (simp add: abs_mult)
  moreover have "\<bar>b\<bar> \<le> \<bar>c * a\<bar> + \<bar>b - c * a\<bar>" by linarith
  ultimately show ?thesis using d by (simp add: a_def b_def)
qed

lemma transportNormal_near:
  assumes tp: "dotV tp tp = 1" and tc: "dotV tc tc = 1" and n: "dotV n n = 1"
  shows "dotV (transportNormal tp tc n) (transportNormal tp tc n) = 1"
    and "\<bar>dotV tc (transportNormal tp tc n)\<bar> \<le> \<bar>dotV tp n\<bar> + transportSlack tp tc"
proof -
  let ?w = "crossVectors tp tc"
  let ?k = "normalizeVec3 ?w"
  let ?th = "arccos (Clamp (dotV tp tc) (- 1) 1)"
  have both: "dotV (transportNormal tp tc n) (transportNormal tp tc n) = 1
       \<and> \<bar>dotV tc (transportNormal tp tc n)\<bar> \<le> \<bar>dotV tp n\<bar> + transportSlack tp tc"
  proof (cases "lengthV ?w > numberEPSILON")
    case True
    then have "0 < lengthV ?w" using numberEPSILON_pos by linarith
    then have w: "0 < dotV ?w ?w" by (simp add: lengthV_pos)
    have k: "dotV ?k ?k = 1" using w by (rule normalizeVec3_unit)
    have val: "transportNormal tp tc n = rotateAboutAxis ?k ?th n"
      using True by (simp add: transportNormal_def Let_def)
    have slack: "transportSlack tp tc = 0" using True by (simp add: transportSlack_def)
    have onto: "rotateAboutAxis ?k ?th tp = tc" using tp tc w by (rule rotate_onto)
    have "dotV tc (rotateAboutAxis ?k ?th n)
        = dotV (rotateAboutAxis ?k ?th tp) (rotateAboutAxis ?k ?th n)"
      by (simp only: onto)
    also have "\<dots> = dotV tp n" using k by (rule rotate_dot)
    finally have "dotV tc (rotateAboutAxis ?k ?th n) = dotV tp n" .
    moreover have "dotV (rotateAboutAxis ?k ?th n) (rotateAboutAxis ?k ?th n) = 1"
      using rotate_dot [OF k, of ?th n n] n by simp
    ultimately show ?thesis unfolding val slack by simp
  next
    case False
    then have val: "transportNormal tp tc n = n"
      by (simp add: transportNormal_def Let_def)
    have slack: "transportSlack tp tc = lengthV ?w"
      using False by (simp add: transportSlack_def)
    show ?thesis unfolding val slack using n unrotated_normal [OF tp tc n] by simp
  qed
  from both show "dotV (transportNormal tp tc n) (transportNormal tp tc n) = 1"
    and "\<bar>dotV tc (transportNormal tp tc n)\<bar> \<le> \<bar>dotV tp n\<bar> + transportSlack tp tc"
    by simp_all
qed

lemma framesLoop_near:
  assumes unit: "\<forall>j\<le>segments. dotV (ts ! j) (ts ! j) = 1"
    and "1 \<le> i" and "i \<le> Suc segments" and "framesNear ts ns bs i"
  shows "framesNear ts (fst (framesLoop ts segments i ns bs))
           (snd (framesLoop ts segments i ns bs)) (Suc segments)"
  using assms(2-)
proof (induction "Suc segments - i" arbitrary: i ns bs)
  case 0
  then have i: "i = Suc segments" by simp
  then have "framesLoop ts segments i ns bs = (ns, bs)"
    by (subst framesLoop.simps) simp
  with 0 i show ?case by simp
next
  case (Suc d)
  then have le: "i \<le> segments" by simp
  obtain k where k: "i = Suc k" using Suc.prems(1) by (cases i) auto
  define n1 where "n1 = transportNormal (ts ! k) (ts ! i) (ns ! k)"
  define b1 where "b1 = crossVectors (ts ! i) n1"
  have step: "framesLoop ts segments i ns bs
      = framesLoop ts segments (Suc i) (ns @ [n1]) (bs @ [b1])"
    using le by (subst framesLoop.simps) (simp add: Let_def n1_def b1_def k)
  from Suc.prems(3) have len: "length ns = i" "length bs = i"
    and old: "\<forall>j<i. dotV (ns ! j) (ns ! j) = 1 \<and> \<bar>dotV (ts ! j) (ns ! j)\<bar> \<le> slackUpTo ts j
                 \<and> bs ! j = crossVectors (ts ! j) (ns ! j)"
    by (simp_all add: framesNear_def)
  have prev: "dotV (ns ! k) (ns ! k) = 1" "\<bar>dotV (ts ! k) (ns ! k)\<bar> \<le> slackUpTo ts k"
    using old k by simp_all
  have tk: "dotV (ts ! k) (ts ! k) = 1" and ti: "dotV (ts ! i) (ts ! i) = 1"
    using unit le k by simp_all
  note new = transportNormal_near [OF tk ti prev(1), folded n1_def]
  have bound: "\<bar>dotV (ts ! i) n1\<bar> \<le> slackUpTo ts i"
    using new(2) prev(2) by (simp add: k)
  have ok: "framesNear ts (ns @ [n1]) (bs @ [b1]) (Suc i)"
    unfolding framesNear_def
  proof (intro conjI allI impI)
    show "length (ns @ [n1]) = Suc i" using len by simp
    show "length (bs @ [b1]) = Suc i" using len by simp
  next
    fix j assume j: "j < Suc i"
    show "dotV ((ns @ [n1]) ! j) ((ns @ [n1]) ! j) = 1"
      using j old new(1) len by (cases "j = i") (simp_all add: nth_append)
    show "\<bar>dotV (ts ! j) ((ns @ [n1]) ! j)\<bar> \<le> slackUpTo ts j"
      using j old bound len by (cases "j = i") (simp_all add: nth_append)
    show "(bs @ [b1]) ! j = crossVectors (ts ! j) ((ns @ [n1]) ! j)"
      using j old len by (cases "j = i") (simp_all add: nth_append b1_def)
  qed
  have "framesNear ts (fst (framesLoop ts segments (Suc i) (ns @ [n1]) (bs @ [b1])))
           (snd (framesLoop ts segments (Suc i) (ns @ [n1]) (bs @ [b1]))) (Suc segments)"
    by (rule Suc.hyps(1)) (use Suc.hyps(2) le ok in simp_all)
  then show ?case by (simp only: step)
qed

lemma twistLoop_near:
  assumes unit: "\<forall>j\<le>segments. dotV (ts ! j) (ts ! j) = 1"
    and "i \<le> Suc segments" and "framesNear ts ns bs (Suc segments)"
  shows "framesNear ts (fst (twistLoop ts segments theta i ns bs))
           (snd (twistLoop ts segments theta i ns bs)) (Suc segments)"
  using assms(2-)
proof (induction "Suc segments - i" arbitrary: i ns bs)
  case 0
  then have "twistLoop ts segments theta i ns bs = (ns, bs)"
    by (subst twistLoop.simps) simp
  with 0 show ?case by simp
next
  case (Suc d)
  then have le: "i \<le> segments" by simp
  define n1 where "n1 = rotateAboutAxis (ts ! i) (theta * real i) (ns ! i)"
  define b1 where "b1 = crossVectors (ts ! i) n1"
  have step: "twistLoop ts segments theta i ns bs
      = twistLoop ts segments theta (Suc i) (ns[i := n1]) (bs[i := b1])"
    using le by (subst twistLoop.simps) (simp add: Let_def n1_def b1_def)
  from Suc.prems(2) have len: "length ns = Suc segments" "length bs = Suc segments"
    and old: "\<forall>j<Suc segments. dotV (ns ! j) (ns ! j) = 1
                 \<and> \<bar>dotV (ts ! j) (ns ! j)\<bar> \<le> slackUpTo ts j
                 \<and> bs ! j = crossVectors (ts ! j) (ns ! j)"
    by (simp_all add: framesNear_def)
  have ti: "dotV (ts ! i) (ts ! i) = 1" using unit le by simp
  have cur: "dotV (ns ! i) (ns ! i) = 1" "\<bar>dotV (ts ! i) (ns ! i)\<bar> \<le> slackUpTo ts i"
    using old le by simp_all
  have n1_unit: "dotV n1 n1 = 1"
    unfolding n1_def using rotate_dot [OF ti, of "theta * real i" "ns ! i" "ns ! i"] cur(1)
    by simp
  have "dotV (ts ! i) n1
      = dotV (rotateAboutAxis (ts ! i) (theta * real i) (ts ! i)) n1"
    by (simp only: rotate_axis [OF ti])
  also have "\<dots> = dotV (ts ! i) (ns ! i)"
    unfolding n1_def using ti by (rule rotate_dot)
  finally have n1_near: "\<bar>dotV (ts ! i) n1\<bar> \<le> slackUpTo ts i" using cur(2) by simp
  have ok: "framesNear ts (ns[i := n1]) (bs[i := b1]) (Suc segments)"
    unfolding framesNear_def
  proof (intro conjI allI impI)
    show "length (ns[i := n1]) = Suc segments" using len by simp
    show "length (bs[i := b1]) = Suc segments" using len by simp
  next
    fix j assume j: "j < Suc segments"
    show "dotV (ns[i := n1] ! j) (ns[i := n1] ! j) = 1"
      using j old n1_unit len le by (cases "j = i") simp_all
    show "\<bar>dotV (ts ! j) (ns[i := n1] ! j)\<bar> \<le> slackUpTo ts j"
      using j old n1_near len le by (cases "j = i") simp_all
    show "bs[i := b1] ! j = crossVectors (ts ! j) (ns[i := n1] ! j)"
      using j old len le by (cases "j = i") (simp_all add: b1_def)
  qed
  have "framesNear ts (fst (twistLoop ts segments theta (Suc i) (ns[i := n1]) (bs[i := b1])))
           (snd (twistLoop ts segments theta (Suc i) (ns[i := n1]) (bs[i := b1])))
           (Suc segments)"
    by (rule Suc.hyps(1)) (use Suc.hyps(2) le ok in simp_all)
  then show ?case by (simp only: step)
qed

lemma framesFor_near:
  assumes unit: "\<forall>j\<le>segments. dotV (ts ! j) (ts ! j) = 1"
  shows "framesNear ts (normals (framesFor ts segments isClosed))
           (binormals (framesFor ts segments isClosed)) (Suc segments)"
proof -
  define vec where "vec = normalizeVec3 (crossVectors (ts ! 0) (initialNormal (ts ! 0)))"
  define n0 where "n0 = crossVectors (ts ! 0) vec"
  define b0 where "b0 = crossVectors (ts ! 0) n0"
  define ns where "ns = fst (framesLoop ts segments 1 [n0] [b0])"
  define bs where "bs = snd (framesLoop ts segments 1 [n0] [b0])"
  have t0: "dotV (ts ! 0) (ts ! 0) = 1" using unit by simp
  have start: "framesNear ts [n0] [b0] 1"
    using initial_frame [OF t0] by (simp add: framesNear_def n0_def b0_def vec_def)
  have loop: "framesNear ts ns bs (Suc segments)"
    unfolding ns_def bs_def
    by (rule framesLoop_near [OF unit]) (use start in simp_all)
  have twist: "framesNear ts (fst (twistLoop ts segments theta 1 ns bs))
      (snd (twistLoop ts segments theta 1 ns bs)) (Suc segments)" for theta
    by (rule twistLoop_near [OF unit]) (use loop in simp_all)
  have "framesFor ts segments isClosed =
      (if isClosed
       then \<lparr>tangents = ts,
             normals = fst (twistLoop ts segments (twistAngle ts segments ns) 1 ns bs),
             binormals = snd (twistLoop ts segments (twistAngle ts segments ns) 1 ns bs)\<rparr>
       else \<lparr>tangents = ts, normals = ns, binormals = bs\<rparr>)"
    by (simp add: framesFor_def Let_def vec_def n0_def b0_def ns_def bs_def
        split: prod.split)
  then show ?thesis using loop twist by simp
qed


section \<open>The frames as a function of the sampled tangents\<close>

lemma computeFrenetFrames_tangents:
  "tangents (fst (computeFrenetFrames c segments isClosed s))
     = fst (tangentsLoop c segments 0 [] s)"
  by (simp add: computeFrenetFrames_def framesFor_def Let_def split: prod.split)

lemma computeFrenetFrames_framesFor:
  "fst (computeFrenetFrames c segments isClosed s)
     = framesFor (fst (tangentsLoop c segments 0 [] s)) segments isClosed"
  by (simp add: computeFrenetFrames_def split: prod.split)

section \<open>The tangents sampled for one segment\<close>

lemma getTangent_finite:
  "getTangent c (Finite t) s =
     (normalizeV c (subV c (getPoint c (Finite (min (t + 1 / 10000) 1)))
                          (getPoint c (Finite (max (t - 1 / 10000) 0)))),
      s\<lparr>evaluated := evaluated s
          @ [Finite (max (t - 1 / 10000) 0), Finite (min (t + 1 / 10000) 1)]\<rparr>)"
proof -
  have cap_low: "max a 0 = (if a < 0 then 0 else a)" for a :: real
    by auto
  have cap_high: "min a 1 = (if a > 1 then 1 else a)" for a :: real
    by auto
  show ?thesis
    unfolding getTangent_def Let_def callGetPoint_def cap_low cap_high
    by simp
qed

lemma getUtoTmapping_state:
  "snd (getUtoTmapping c u d s) = snd (getLengths c None s)"
  by (simp add: getUtoTmapping_def split: prod.split)

lemma getLengths_divisions:
  "arcLengthDivisions (snd (getLengths c d s)) = arcLengthDivisions s"
  by (simp add: getLengths_def Let_def buildLengths_eq split: option.split)

lemma cacheValid_evaluated [simp]:
  "cacheValid c (s\<lparr>evaluated := e\<rparr>) = cacheValid c s"
  by (simp add: cacheValid_def split: option.split)

lemma getTangentAt_finite:
  assumes "fst (getUtoTmapping c u None s) = Finite t"
  shows "fst (getTangentAt c u s) =
       normalizeV c (subV c (getPoint c (Finite (min (t + 1 / 10000) 1)))
                          (getPoint c (Finite (max (t - 1 / 10000) 0))))"
    and "cacheValid c s \<Longrightarrow> cacheValid c (snd (getTangentAt c u s))"
    and "lengthDivisions None (snd (getTangentAt c u s)) = lengthDivisions None s"
proof -
  obtain s1 where s1: "getUtoTmapping c u None s = (Finite t, s1)"
    using assms by (cases "getUtoTmapping c u None s") simp
  have s1': "s1 = snd (getLengths c None s)"
    using getUtoTmapping_state [of c u None s] s1 by simp
  have val: "getTangentAt c u s = getTangent c (Finite t) s1"
    by (simp add: getTangentAt_def s1)
  show "fst (getTangentAt c u s) =
       normalizeV c (subV c (getPoint c (Finite (min (t + 1 / 10000) 1)))
                          (getPoint c (Finite (max (t - 1 / 10000) 0))))"
    by (simp add: val getTangent_finite)
  show "cacheValid c (snd (getTangentAt c u s))" if "cacheValid c s"
    using getLengths_valid(2) [OF that, of None]
    by (simp add: val getTangent_finite s1')
  show "lengthDivisions None (snd (getTangentAt c u s)) = lengthDivisions None s"
    using getLengths_divisions [of c None s]
    by (simp add: val getTangent_finite s1' lengthDivisions_def)
qed

lemma tangentsLoop_one:
  "fst (tangentsLoop c 1 0 [] s) =
     [normalizeV c (fst (getTangentAt c 0 s)),
      normalizeV c (fst (getTangentAt c 1 (snd (getTangentAt c 0 s))))]"
proof -
  obtain tg0 s1 where a: "getTangentAt c 0 s = (tg0, s1)"
    by (cases "getTangentAt c 0 s")
  obtain tg1 s2 where b: "getTangentAt c 1 s1 = (tg1, s2)"
    by (cases "getTangentAt c 1 s1")
  have "tangentsLoop c 1 0 [] s = tangentsLoop c 1 1 [normalizeV c tg0] s1"
    by (subst tangentsLoop.simps) (simp add: tangentAtStep_def a)
  also have "\<dots> = tangentsLoop c 1 (Suc 1) [normalizeV c tg0, normalizeV c tg1] s2"
    by (subst tangentsLoop.simps) (simp add: tangentAtStep_def b)
  also have "\<dots> = ([normalizeV c tg0, normalizeV c tg1], s2)"
    by (subst tangentsLoop.simps) simp
  finally show ?thesis by (simp add: a b)
qed

text \<open>With one segment the two tangents are the one-sided differences at the two
  ends, when the first and the last step of the table have a non-zero length.\<close>

lemma end_tangents:
  assumes nonneg: "\<And>p q. 0 \<le> distanceTo c p q"
    and valid: "cacheValid c s"
    and n: "n = lengthDivisions None s"
    and first: "arcSum c n 1 \<noteq> 0"
    and final: "arcSum c n (n - 1) \<noteq> arcSum c n n"
  shows "tangents (fst (computeFrenetFrames c 1 isClosed s)) =
     [normalizeV c (normalizeV c (subV c (getPoint c (Finite (1 / 10000)))
                                        (getPoint c (Finite 0)))),
      normalizeV c (normalizeV c (subV c (getPoint c (Finite 1))
                                        (getPoint c (Finite (1 - 1 / 10000)))))]"
proof -
  have r0: "fst (getUtoTmapping c 0 None s) = Finite 0"
    using nonneg valid n first by (rule remap_zero)
  note t0 = getTangentAt_finite [OF r0]
  define s1 where "s1 = snd (getTangentAt c 0 s)"
  have valid1: "cacheValid c s1" unfolding s1_def using valid by (rule t0(2))
  have n1: "n = lengthDivisions None s1" unfolding s1_def n by (rule t0(3) [symmetric])
  have r1: "fst (getUtoTmapping c 1 None s1) = Finite 1"
    using nonneg valid1 n1 final by (rule remap_one)
  note t1 = getTangentAt_finite(1) [OF r1]
  show ?thesis
    unfolding computeFrenetFrames_tangents tangentsLoop_one s1_def [symmetric] t0(1) t1
    by simp
qed

lemma distanceVec3_nonneg: "0 \<le> distanceVec3 p q"
  by (simp add: distanceVec3_def lengthV_def dotV_nonneg)

lemma normalizeVec3_x: "0 < a \<Longrightarrow> normalizeVec3 (Vec3 a 0 0) = Vec3 1 0 0"
  by (simp add: normalizeVec3_def lengthV_def dotV_def)

lemma normalizeVec3_z: "0 < a \<Longrightarrow> normalizeVec3 (Vec3 0 0 a) = Vec3 0 0 1"
  by (simp add: normalizeVec3_def lengthV_def dotV_def)

lemma normalizeVec3_idem:
  assumes "0 < dotV v v"
  shows "normalizeVec3 (normalizeVec3 v) = normalizeVec3 v"
proof -
  have "lengthV (normalizeVec3 v) = 1"
    using normalizeVec3_unit [OF assms] by (simp add: lengthV_unit)
  then show ?thesis by (subst (1) normalizeVec3_def) simp
qed

section \<open>The range of the remapping\<close>

lemma tableShaped_sorted:
  assumes "tableShaped xs"
  shows "sorted xs"
  using assms by (simp add: tableShaped_def sorted_iff_nth_Suc)

lemma mapTarget_range:
  assumes shaped: "tableShaped xs" and len: "2 \<le> length xs"
    and u: "0 \<le> u" "u \<le> 1"
  shows "\<exists>t. mapTarget xs (Some (u * last xs)) = Finite t \<and> 0 \<le> t \<and> t \<le> 1"
proof -
  define target where "target = u * last xs"
  define r where "r = binarySearch xs target 0 (int (length xs) - 1)"
  have srt: "sorted xs" using shaped by (rule tableShaped_sorted)
  have first: "xs ! 0 = 0" using shaped by (simp add: tableShaped_def)
  have lastn: "last xs = xs ! (length xs - 1)"
    using len by (intro last_conv_nth) auto
  have "xs ! 0 \<le> xs ! (length xs - 1)"
    using srt len by (intro sorted_nth_mono) auto
  then have total: "0 \<le> last xs" by (simp add: first lastn)
  have t0: "0 \<le> target" unfolding target_def using u(1) total by simp
  have t1: "target \<le> last xs"
    unfolding target_def using mult_right_mono [OF u(2) total] by simp
  have N: "0 < real (length xs - 1)" using len by simp
  have ne: "xs \<noteq> []" using len by auto
  from search_whole_table [OF srt, of target]
  consider (exact) "searchExact xs target r" | (bracket) "searchBracket xs target r"
    unfolding r_def by blast
  then show ?thesis
  proof cases
    case exact
    then have rr: "0 \<le> r" "r < int (length xs)" by (simp_all add: searchExact_def)
    have "mapTarget xs (Some target) = Finite (real_of_int r / real (length xs - 1))"
      unfolding r_def by (rule mapTarget_exact) (use exact len in \<open>simp_all add: r_def\<close>)
    moreover have "0 \<le> real_of_int r / real (length xs - 1)" using rr(1) N by simp
    moreover have "real_of_int r \<le> real (length xs - 1)" using rr(2) len by simp
    then have "real_of_int r / real (length xs - 1) \<le> 1" using N by simp
    ultimately show ?thesis unfolding target_def by blast
  next
    case bracket
    then have lo: "- 1 \<le> r" and hi: "r < int (length xs)"
      and below: "\<forall>j. 0 \<le> j \<and> j \<le> r \<longrightarrow> xs ! nat j < target"
      and above: "\<forall>j. r < j \<and> j < int (length xs) \<longrightarrow> target < xs ! nat j"
      by (simp_all add: searchBracket_def)
    have r0: "0 \<le> r"
    proof (rule ccontr)
      assume "\<not> 0 \<le> r"
      then have "r < 0 \<and> 0 < int (length xs)" using ne len by simp
      with above have "target < xs ! nat 0" by blast
      then show False using t0 first by simp
    qed
    have r1: "r + 1 < int (length xs)"
    proof (rule ccontr)
      assume "\<not> r + 1 < int (length xs)"
      then have "r = int (length xs) - 1" using hi by simp
      then have "0 \<le> int (length xs) - 1 \<and> int (length xs) - 1 \<le> r" using ne len by simp
      with below have "xs ! nat (int (length xs) - 1) < target" by blast
      moreover have "nat (int (length xs) - 1) = length xs - 1" by simp
      ultimately show False using t1 lastn by simp
    qed
    have b: "xs ! nat r < target" using below r0 by simp
    have "r < r + 1 \<and> r + 1 < int (length xs)" using r1 by simp
    with above have "target < xs ! nat (r + 1)" by blast
    moreover have "nat (r + 1) = nat r + 1" using r0 by simp
    ultimately have a: "target < xs ! (nat r + 1)" by simp
    define fr where "fr = (target - xs ! nat r) / (xs ! (nat r + 1) - xs ! nat r)"
    have den: "0 < xs ! (nat r + 1) - xs ! nat r" using a b by simp
    have fr0: "0 \<le> fr" unfolding fr_def using b den by simp
    have fr1: "fr \<le> 1" unfolding fr_def using a den by simp
    have val: "mapTarget xs (Some target)
        = Finite ((real_of_int r + fr) / real (length xs - 1))"
      unfolding fr_def using r_def r0 r1 b a by (rule mapTarget_interpolate)
    have "real_of_int r + 1 \<le> real (length xs - 1)" using r1 len by simp
    then have "real_of_int r + fr \<le> real (length xs - 1)" using fr1 by simp
    then have "(real_of_int r + fr) / real (length xs - 1) \<le> 1" using N by simp
    moreover have "0 \<le> (real_of_int r + fr) / real (length xs - 1)"
      using r0 fr0 N by simp
    ultimately show ?thesis using val unfolding target_def by blast
  qed
qed

lemma getUtoTmapping_range:
  assumes nonneg: "\<And>p q. 0 \<le> distanceTo c p q"
    and shaped: "cacheShaped s"
    and u: "0 \<le> u" "u \<le> 1"
  shows "\<exists>t. fst (getUtoTmapping c u None s) = Finite t \<and> 0 \<le> t \<and> t \<le> 1"
proof -
  let ?table = "fst (getLengths c None s)"
  have len: "length ?table = Suc (lengthDivisions None s)" by (rule getLengths_length)
  have "0 < lengthDivisions None s" by (rule lengthDivisions_pos)
  with len have two: "2 \<le> length ?table" by simp
  then have ne: "?table \<noteq> []" by auto
  have sh: "tableShaped ?table" using nonneg shaped by (rule getLengths_shaped(1))
  have "fst (getUtoTmapping c u None s) = mapTarget ?table (Some (u * last ?table))"
    unfolding getUtoTmapping_omitted targetArcLength_omitted [OF ne] ..
  then show ?thesis using mapTarget_range [OF sh two u] by simp
qed

section \<open>The sampled tangents of a non-degenerate curve\<close>

lemma cacheShaped_evaluated [simp]:
  "cacheShaped (s\<lparr>evaluated := e\<rparr>) = cacheShaped s"
  by (simp add: cacheShaped_def split: option.split)

lemma subVec3_nonzero:
  assumes "a \<noteq> b"
  shows "0 < dotV (subVec3 a b) (subVec3 a b)"
proof -
  have "vx a \<noteq> vx b \<or> vy a \<noteq> vy b \<or> vz a \<noteq> vz b"
    using assms by (cases a, cases b) auto
  then have "vx a - vx b \<noteq> 0 \<or> vy a - vy b \<noteq> 0 \<or> vz a - vz b \<noteq> 0" by simp
  moreover have sq: "x \<noteq> 0 \<Longrightarrow> 0 < x * x" for x :: real
    by (cases "0 < x") (simp_all add: zero_less_mult_iff)
  moreover have "0 \<le> (vx a - vx b) * (vx a - vx b)" "0 \<le> (vy a - vy b) * (vy a - vy b)"
    "0 \<le> (vz a - vz b) * (vz a - vz b)"
    by simp_all
  ultimately have "0 < (vx a - vx b) * (vx a - vx b) + (vy a - vy b) * (vy a - vy b)
      + (vz a - vz b) * (vz a - vz b)"
    using sq [of "vx a - vx b"] sq [of "vy a - vy b"] sq [of "vz a - vz b"]
    by linarith
  then show ?thesis by (simp add: dotV_def subVec3_def)
qed

lemma distance_curve3: "0 \<le> distanceTo (curve3 f) p q"
  by (simp add: curve3_def distanceVec3_nonneg)

lemma getTangentAt_unit:
  assumes nondeg: "nonDegenerate f" and shaped: "cacheShaped s"
    and u: "0 \<le> u" "u \<le> 1"
  shows "dotV (normalizeVec3 (fst (getTangentAt (curve3 f) u s)))
           (normalizeVec3 (fst (getTangentAt (curve3 f) u s))) = 1"
    and "cacheShaped (snd (getTangentAt (curve3 f) u s))"
proof -
  obtain t where t: "fst (getUtoTmapping (curve3 f) u None s) = Finite t"
    and t0: "0 \<le> t" and t1: "t \<le> 1"
    using getUtoTmapping_range [OF distance_curve3 shaped u] by blast
  define lo where "lo = max (t - 1 / 10000) 0"
  define hi where "hi = min (t + 1 / 10000) 1"
  have "0 \<le> lo \<and> lo < hi \<and> hi \<le> 1 \<and> hi - lo \<le> 2 / 10000"
    unfolding lo_def hi_def min_def max_def using t0 t1 by auto
  then have "f (Finite lo) \<noteq> f (Finite hi)"
    using nondeg unfolding nonDegenerate_def by blast
  then have "f (Finite hi) \<noteq> f (Finite lo)" by simp
  then have pos: "0 < dotV (subVec3 (f (Finite hi)) (f (Finite lo)))
      (subVec3 (f (Finite hi)) (f (Finite lo)))"
    by (rule subVec3_nonzero)
  have tg: "fst (getTangentAt (curve3 f) u s)
      = normalizeVec3 (subVec3 (f (Finite hi)) (f (Finite lo)))"
    unfolding getTangentAt_finite(1) [OF t] lo_def hi_def by (simp add: curve3_def)
  show "dotV (normalizeVec3 (fst (getTangentAt (curve3 f) u s)))
           (normalizeVec3 (fst (getTangentAt (curve3 f) u s))) = 1"
    unfolding tg normalizeVec3_idem [OF pos] using pos by (rule normalizeVec3_unit)
  obtain s1 where s1: "getUtoTmapping (curve3 f) u None s = (Finite t, s1)"
    using t by (cases "getUtoTmapping (curve3 f) u None s") simp
  have "s1 = snd (getLengths (curve3 f) None s)"
    using getUtoTmapping_state [of "curve3 f" u None s] s1 by simp
  then have "cacheShaped s1"
    using getLengths_shaped(2) [OF distance_curve3 shaped] by simp
  then show "cacheShaped (snd (getTangentAt (curve3 f) u s))"
    by (simp add: getTangentAt_def s1 getTangent_finite)
qed

lemma tangentsLoop_unit:
  assumes "c = curve3 f" and "nonDegenerate f" and "0 < segments" and "cacheShaped s"
    and "\<forall>v\<in>set ts. dotV v v = 1"
  shows "\<forall>v\<in>set (fst (tangentsLoop c segments i ts s)). dotV v v = 1"
  using assms
proof (induction c segments i ts s rule: tangentsLoop.induct)
  case (1 c segments i ts s)
  show ?case
  proof (cases "i \<le> segments")
    case True
    define u where "u = real i / real segments"
    have u: "0 \<le> u" "u \<le> 1" unfolding u_def using True "1.prems"(3) by simp_all
    obtain tg s1 where call: "tangentAtStep c i segments s = (tg, s1)"
      by (cases "tangentAtStep c i segments s")
    have at: "getTangentAt (curve3 f) u s = (tg, s1)"
      using call "1.prems"(1,3) by (simp add: tangentAtStep_def u_def)
    have unit: "dotV (normalizeVec3 tg) (normalizeVec3 tg) = 1"
      using getTangentAt_unit(1) [OF "1.prems"(2,4) u, of ] at by simp
    have sh: "cacheShaped s1"
      using getTangentAt_unit(2) [OF "1.prems"(2,4) u] at by simp
    have nv: "normalizeV c tg = normalizeVec3 tg"
      using "1.prems"(1) by (simp add: curve3_def)
    have "\<forall>v\<in>set (fst (tangentsLoop c segments (Suc i) (ts @ [normalizeV c tg]) s1)).
        dotV v v = 1"
      using "1.IH" [OF True call [symmetric] "1.prems"(1,2,3) sh] "1.prems"(5) unit nv
      by simp
    then show ?thesis
      using True call by (subst tangentsLoop.simps) simp
  next
    case False
    then show ?thesis using "1.prems"(5) by (subst tangentsLoop.simps) simp
  qed
qed

lemma sampled_tangents_unit:
  assumes "nonDegenerate f" and "0 < segments" and "cacheShaped s" and "j \<le> segments"
  shows "dotV (fst (tangentsLoop (curve3 f) segments 0 [] s) ! j)
           (fst (tangentsLoop (curve3 f) segments 0 [] s) ! j) = 1"
proof -
  let ?ts = "fst (tangentsLoop (curve3 f) segments 0 [] s)"
  have "length ?ts = Suc segments" by (simp add: tangentsLoop_length)
  then have "?ts ! j \<in> set ?ts" using assms(4) by simp
  moreover have "\<forall>v\<in>set ?ts. dotV v v = 1"
    by (rule tangentsLoop_unit [OF refl assms(1,2,3)]) simp
  ultimately show ?thesis by blast
qed

section \<open>The twist correction of a closed curve\<close>















section \<open>The frames of the example curves\<close>

lemma framesLoop_one:
  "framesLoop ts (Suc 0) (Suc 0) [n0] [b0] =
     ([n0, transportNormal (ts ! 0) (ts ! Suc 0) n0],
      [b0, crossVectors (ts ! Suc 0) (transportNormal (ts ! 0) (ts ! Suc 0) n0)])"
proof -
  have "framesLoop ts (Suc 0) (Suc 0) [n0] [b0] =
      framesLoop ts (Suc 0) (Suc (Suc 0)) ([n0] @ [transportNormal (ts ! 0) (ts ! Suc 0) n0])
        ([b0] @ [crossVectors (ts ! Suc 0) (transportNormal (ts ! 0) (ts ! Suc 0) n0)])"
    by (subst framesLoop.simps) (simp add: Let_def)
  also have "\<dots> = ([n0, transportNormal (ts ! 0) (ts ! Suc 0) n0],
      [b0, crossVectors (ts ! Suc 0) (transportNormal (ts ! 0) (ts ! Suc 0) n0)])"
    by (subst framesLoop.simps) simp
  finally show ?thesis .
qed


lemma initialNormal_x: "initialNormal (Vec3 1 0 0) = Vec3 0 0 1"
  using numberMAX_VALUE_ge_1 by (simp add: initialNormal_def)

text \<open>The first normal and binormal when the first tangent is the x axis.\<close>

lemma first_frame_x:
  "crossVectors (Vec3 1 0 0)
     (normalizeVec3 (crossVectors (Vec3 1 0 0) (initialNormal (Vec3 1 0 0))))
   = Vec3 0 0 (- 1)"
  by (simp add: initialNormal_x crossVectors_def normalizeVec3_def lengthV_def dotV_def)

lemma normals_one_segment:
  "normals (framesFor [Vec3 1 0 0, t1] 1 False)
     = [Vec3 0 0 (- 1), transportNormal (Vec3 1 0 0) t1 (Vec3 0 0 (- 1))]"
  by (simp add: framesFor_def Let_def first_frame_x framesLoop_one)


lemma lengthV_x: "lengthV (Vec3 a 0 0) = \<bar>a\<bar>"
  by (simp add: lengthV_def dotV_def)

lemma lengthV_z: "lengthV (Vec3 0 0 a) = \<bar>a\<bar>"
  by (simp add: lengthV_def dotV_def)

lemma square_tangents:
  "tangents (fst (computeFrenetFrames exSquare 1 isClosed (newCurve 4)))
     = [Vec3 1 0 0, Vec3 0 0 1]"
proof -
  have nonneg: "\<And>p q. 0 \<le> distanceTo exSquare p q"
    by (simp add: exSquare_def curve3_def distanceVec3_nonneg)
  have valid: "cacheValid exSquare (newCurve 4)"
    by (simp add: cacheValid_def newCurve_def)
  have n: "4 = lengthDivisions None (newCurve 4)"
    by (simp add: lengthDivisions_def newCurve_def)
  have first: "arcSum exSquare 4 1 \<noteq> 0"
    by (simp add: samplePoint_def exSquare_def curve3_def squarePoint_def
        distanceVec3_def subVec3_def lengthV_x)
  have "distanceTo exSquare (samplePoint exSquare 4 (Suc 3)) (samplePoint exSquare 4 3) = 1"
    by (simp add: samplePoint_def exSquare_def curve3_def squarePoint_def
        distanceVec3_def subVec3_def lengthV_z)
  then have "arcSum exSquare 4 (Suc 3) = arcSum exSquare 4 3 + 1"
    by (simp only: arcSum.simps)
  then have four: "arcSum exSquare 4 4 = arcSum exSquare 4 3 + 1"
    by simp
  have final: "arcSum exSquare 4 (4 - 1) \<noteq> arcSum exSquare 4 4"
    unfolding four by simp
  show ?thesis
    unfolding end_tangents [OF nonneg valid n first final]
    by (simp add: exSquare_def curve3_def squarePoint_def subVec3_def
        normalizeVec3_x normalizeVec3_z)
qed

text \<open>The direction of the last piece of the curve with the kink, and what is
  known of its normalisation.\<close>

lemma kink_direction:
  defines "v \<equiv> Vec3 (1 / 10000) 0 (numberEPSILON / 10000)"
  shows "dotV (normalizeVec3 v) (normalizeVec3 v) = 1"
    and "vy (normalizeVec3 v) = 0"
    and "0 < vz (normalizeVec3 v)"
    and "vz (normalizeVec3 v) \<le> numberEPSILON"
    and "normalizeVec3 (normalizeVec3 v) = normalizeVec3 v"
proof -
  have pos: "0 < dotV v v"
    unfolding v_def dotV_def vec3.sel
    by (rule add_pos_nonneg) simp_all
  have L: "0 < lengthV v" using pos by (simp add: lengthV_pos)
  have "(1 / 10000) * (1 / 10000) \<le> dotV v v"
    unfolding v_def dotV_def vec3.sel by simp
  then have "sqrt ((1 / 10000) * (1 / 10000)) \<le> lengthV v"
    unfolding lengthV_def by (rule real_sqrt_le_mono)
  then have low: "1 / 10000 \<le> lengthV v" by (simp only: real_sqrt_abs2)
  have val: "normalizeVec3 v
      = Vec3 (1 / 10000 / lengthV v) (0 / lengthV v) (numberEPSILON / 10000 / lengthV v)"
    using L by (simp add: normalizeVec3_def) (simp add: v_def)
  show "dotV (normalizeVec3 v) (normalizeVec3 v) = 1"
    using pos by (rule normalizeVec3_unit)
  show "vy (normalizeVec3 v) = 0" by (simp add: val)
  show "0 < vz (normalizeVec3 v)"
    using L numberEPSILON_pos by (simp add: val)
  have "numberEPSILON / 10000 \<le> numberEPSILON * lengthV v"
    using low numberEPSILON_pos by (simp add: field_simps)
  then show "vz (normalizeVec3 v) \<le> numberEPSILON"
    using L by (simp add: val field_simps)
  show "normalizeVec3 (normalizeVec3 v) = normalizeVec3 v"
    using pos by (rule normalizeVec3_idem)
qed

lemma kink_tangents:
  "tangents (fst (computeFrenetFrames exKink 1 isClosed (newCurve 1)))
     = [Vec3 1 0 0, normalizeVec3 (Vec3 (1 / 10000) 0 (numberEPSILON / 10000))]"
proof -
  have nonneg: "\<And>p q. 0 \<le> distanceTo exKink p q"
    by (simp add: exKink_def curve3_def distanceVec3_nonneg)
  have valid: "cacheValid exKink (newCurve 1)"
    by (simp add: cacheValid_def newCurve_def)
  have n: "1 = lengthDivisions None (newCurve 1)"
    by (simp add: lengthDivisions_def newCurve_def)
  have "0 < dotV (Vec3 1 0 (numberEPSILON / 2)) (Vec3 1 0 (numberEPSILON / 2))"
    unfolding dotV_def vec3.sel by (rule add_pos_nonneg) simp_all
  then have "lengthV (Vec3 1 0 (numberEPSILON / 2)) \<noteq> 0"
    by (simp add: lengthV_def)
  then have first: "arcSum exKink 1 1 \<noteq> 0"
    by (simp add: samplePoint_def exKink_def curve3_def kinkPoint_def
        distanceVec3_def subVec3_def)
  have final: "arcSum exKink 1 (1 - 1) \<noteq> arcSum exKink 1 1"
    using first by simp
  have diff: "subVec3 (kinkPoint (Finite 1)) (kinkPoint (Finite (9999 / 10000)))
      = Vec3 (1 / 10000) 0 (numberEPSILON / 10000)"
    by (simp add: kinkPoint_def subVec3_def algebra_simps)
  have start: "subVec3 (kinkPoint (Finite (1 / 10000))) (kinkPoint (Finite 0))
      = Vec3 (1 / 10000) 0 0"
    by (simp add: kinkPoint_def subVec3_def)
  show ?thesis
    unfolding end_tangents [OF nonneg valid n first final]
    by (simp add: exKink_def curve3_def diff start normalizeVec3_x kink_direction(5))
qed

text \<open>
  The tolerance in the orthogonality of tangent and normal is not an artefact of the
  proof. On the segment with the kink both sampled tangents are unit vectors, the
  second one leaves the x axis by less than \<^verbatim>\<open>Number.EPSILON\<close>, the guard
  \<^verbatim>\<open>vec.length() > Number.EPSILON\<close> carries the normal over without rotation, and
  the product of tangent and normal at index 1 is a non-zero number of at most that
  size.
\<close>

lemma kink_normal_unrotated:
  "lengthV (tangents kinkFrames ! 0) = 1
   \<and> lengthV (tangents kinkFrames ! 1) = 1
   \<and> normals kinkFrames ! 1 = Vec3 0 0 (- 1)
   \<and> dotV (tangents kinkFrames ! 1) (normals kinkFrames ! 1) \<noteq> 0
   \<and> \<bar>dotV (tangents kinkFrames ! 1) (normals kinkFrames ! 1)\<bar> \<le> numberEPSILON"
proof -
  define u where "u = normalizeVec3 (Vec3 (1 / 10000) 0 (numberEPSILON / 10000))"
  note dir = kink_direction [folded u_def]
  have ts: "tangents kinkFrames = [Vec3 1 0 0, u]"
    unfolding kinkFrames_def u_def by (rule kink_tangents)
  have "kinkFrames = framesFor (tangents kinkFrames) 1 False"
    unfolding kinkFrames_def computeFrenetFrames_tangents
    by (rule computeFrenetFrames_framesFor)
  then have eq: "kinkFrames = framesFor [Vec3 1 0 0, u] 1 False"
    by (simp only: ts)
  have ns: "normals kinkFrames
      = [Vec3 0 0 (- 1), transportNormal (Vec3 1 0 0) u (Vec3 0 0 (- 1))]"
    by (subst eq) (rule normals_one_segment)
  have cross: "crossVectors (Vec3 1 0 0) u = Vec3 0 (- vz u) 0"
    using dir(2) by (simp add: crossVectors_def)
  have "lengthV (crossVectors (Vec3 1 0 0) u) = \<bar>vz u\<bar>"
    unfolding cross by (simp add: lengthV_def dotV_def)
  then have "\<not> lengthV (crossVectors (Vec3 1 0 0) u) > numberEPSILON"
    using dir(3,4) by simp
  then have "transportNormal (Vec3 1 0 0) u (Vec3 0 0 (- 1)) = Vec3 0 0 (- 1)"
    by (simp add: transportNormal_def Let_def)
  then have n1: "normals kinkFrames ! 1 = Vec3 0 0 (- 1)" by (simp add: ns)
  have t1: "tangents kinkFrames ! 1 = u" by (simp add: ts)
  have "dotV (tangents kinkFrames ! 1) (normals kinkFrames ! 1) = - vz u"
    unfolding t1 n1 by (simp add: dotV_def)
  then have "dotV (tangents kinkFrames ! 1) (normals kinkFrames ! 1) \<noteq> 0
      \<and> \<bar>dotV (tangents kinkFrames ! 1) (normals kinkFrames ! 1)\<bar> \<le> numberEPSILON"
    using dir(3,4) by simp
  moreover have "lengthV (tangents kinkFrames ! 0) = 1" by (simp add: ts lengthV_x)
  moreover have "lengthV (tangents kinkFrames ! 1) = 1"
    using dir(1) by (simp add: ts lengthV_unit)
  ultimately show ?thesis using n1 by simp
qed

section \<open>The loop: tangents and frames for three segments\<close>
















section \<open>Claims about the Frenet frames\<close>

text \<open>
  Claim C8. For every non-degenerate curve and every positive segment count,
  \<^verbatim>\<open>computeFrenetFrames\<close> returns three sequences of length \<open>segments + 1\<close>, and
  at every index \<open>i\<close> the tangent and the normal are unit vectors and the binormal is
  their cross product, orthogonal to both. Numbers being real here, orthogonality of
  tangent and normal is stated with its tolerance: their product is at most \<open>i\<close>
  times \<^verbatim>\<open>Number.EPSILON\<close> in absolute value (the guard of the transport loop leaves
  a normal unrotated when two tangents are closer than that), and the squared length
  of the binormal is 1 less the square of that product. Where the cross product of
  each two consecutive tangents is zero or longer than \<^verbatim>\<open>Number.EPSILON\<close>, the three
  vectors are exactly orthogonal unit vectors. This holds for an open and for a
  closed curve, and whatever the cache of the curve holds.
\<close>

theorem frenet_frames_orthonormal:
  assumes pos: "0 < segments"
    and nondeg: "nonDegenerate f"
    and shaped: "cacheShaped s"
    and fr: "frames = fst (computeFrenetFrames (curve3 f) segments isClosed s)"
  shows "length (tangents frames) = segments + 1
     \<and> length (normals frames) = segments + 1
     \<and> length (binormals frames) = segments + 1
     \<and> (\<forall>i\<le>segments.
           lengthV (tangents frames ! i) = 1
         \<and> lengthV (normals frames ! i) = 1
         \<and> binormals frames ! i = crossVectors (tangents frames ! i) (normals frames ! i)
         \<and> dotV (tangents frames ! i) (binormals frames ! i) = 0
         \<and> dotV (normals frames ! i) (binormals frames ! i) = 0
         \<and> \<bar>dotV (tangents frames ! i) (normals frames ! i)\<bar> \<le> real i * numberEPSILON
         \<and> (lengthV (binormals frames ! i))\<^sup>2
             = 1 - (dotV (tangents frames ! i) (normals frames ! i))\<^sup>2)
     \<and> ((\<forall>i<segments.
            lengthV (crossVectors (tangents frames ! i) (tangents frames ! Suc i)) = 0
            \<or> lengthV (crossVectors (tangents frames ! i) (tangents frames ! Suc i))
                > numberEPSILON) \<longrightarrow>
          (\<forall>i\<le>segments.
             dotV (tangents frames ! i) (normals frames ! i) = 0
           \<and> lengthV (binormals frames ! i) = 1))"
proof -
  define ts where "ts = fst (tangentsLoop (curve3 f) segments 0 [] s)"
  have frames: "frames = framesFor ts segments isClosed"
    unfolding fr ts_def by (rule computeFrenetFrames_framesFor)
  have tans: "tangents frames = ts"
    unfolding fr ts_def by (rule computeFrenetFrames_tangents)
  have len: "length ts = segments + 1"
    unfolding ts_def by (simp add: tangentsLoop_length)
  have unit: "\<forall>j\<le>segments. dotV (ts ! j) (ts ! j) = 1"
    unfolding ts_def using sampled_tangents_unit [OF nondeg pos shaped] by blast
  from framesFor_near [OF unit, of isClosed]
  have near: "framesNear ts (normals frames) (binormals frames) (Suc segments)"
    by (simp add: frames)
  then have lens: "length (normals frames) = segments + 1"
    "length (binormals frames) = segments + 1"
    by (simp_all add: framesNear_def)
  have at: "dotV (ts ! i) (ts ! i) = 1
         \<and> dotV (normals frames ! i) (normals frames ! i) = 1
         \<and> \<bar>dotV (ts ! i) (normals frames ! i)\<bar> \<le> slackUpTo ts i
         \<and> binormals frames ! i = crossVectors (ts ! i) (normals frames ! i)"
    if "i \<le> segments" for i
    using near unit that by (simp add: framesNear_def)
  have general: "lengthV (tangents frames ! i) = 1
         \<and> lengthV (normals frames ! i) = 1
         \<and> binormals frames ! i = crossVectors (tangents frames ! i) (normals frames ! i)
         \<and> dotV (tangents frames ! i) (binormals frames ! i) = 0
         \<and> dotV (normals frames ! i) (binormals frames ! i) = 0
         \<and> \<bar>dotV (tangents frames ! i) (normals frames ! i)\<bar> \<le> real i * numberEPSILON
         \<and> (lengthV (binormals frames ! i))\<^sup>2
             = 1 - (dotV (tangents frames ! i) (normals frames ! i))\<^sup>2"
    if i: "i \<le> segments" for i
  proof -
    from at [OF i] have t: "dotV (ts ! i) (ts ! i) = 1"
      and n: "dotV (normals frames ! i) (normals frames ! i) = 1"
      and tn: "\<bar>dotV (ts ! i) (normals frames ! i)\<bar> \<le> slackUpTo ts i"
      and b: "binormals frames ! i = crossVectors (ts ! i) (normals frames ! i)"
      by simp_all
    have "slackUpTo ts i \<le> real i * numberEPSILON" using slackUpTo_bound [of ts i] by simp
    with tn have bound: "\<bar>dotV (ts ! i) (normals frames ! i)\<bar> \<le> real i * numberEPSILON"
      by linarith
    have "(lengthV (binormals frames ! i))\<^sup>2 = dotV (binormals frames ! i) (binormals frames ! i)"
      by (simp add: lengthV_def dotV_nonneg)
    also have "\<dots> = 1 - (dotV (ts ! i) (normals frames ! i))\<^sup>2"
      unfolding b lagrange using t n by (simp add: power2_eq_square)
    finally show ?thesis
      using t n bound by (simp add: tans b lengthV_unit)
  qed
  have exact: "dotV (tangents frames ! i) (normals frames ! i) = 0
           \<and> lengthV (binormals frames ! i) = 1"
    if gap: "\<forall>i<segments.
            lengthV (crossVectors (tangents frames ! i) (tangents frames ! Suc i)) = 0
            \<or> lengthV (crossVectors (tangents frames ! i) (tangents frames ! Suc i))
                > numberEPSILON"
      and i: "i \<le> segments" for i
  proof -
    have "\<forall>k<i. lengthV (crossVectors (ts ! k) (ts ! Suc k)) = 0
              \<or> lengthV (crossVectors (ts ! k) (ts ! Suc k)) > numberEPSILON"
      using gap i by (simp add: tans)
    then have "slackUpTo ts i = 0" by (rule slackUpTo_zero)
    with at [OF i] have tn: "dotV (ts ! i) (normals frames ! i) = 0" by simp
    from general [OF i] have "(lengthV (binormals frames ! i))\<^sup>2
        = 1 - (dotV (tangents frames ! i) (normals frames ! i))\<^sup>2"
      by (elim conjE)
    then have "(lengthV (binormals frames ! i))\<^sup>2 = 1"
      using tn by (simp add: tans)
    moreover have "0 \<le> lengthV (binormals frames ! i)" by (simp add: lengthV_def dotV_nonneg)
    ultimately have "lengthV (binormals frames ! i) = 1"
      by (simp add: power2_eq_1_iff)
    then show ?thesis using tn by (simp add: tans)
  qed
  have len': "length (tangents frames) = segments + 1" using len by (simp only: tans)
  from general have all_general: "\<forall>i\<le>segments.
           lengthV (tangents frames ! i) = 1
         \<and> lengthV (normals frames ! i) = 1
         \<and> binormals frames ! i = crossVectors (tangents frames ! i) (normals frames ! i)
         \<and> dotV (tangents frames ! i) (binormals frames ! i) = 0
         \<and> dotV (normals frames ! i) (binormals frames ! i) = 0
         \<and> \<bar>dotV (tangents frames ! i) (normals frames ! i)\<bar> \<le> real i * numberEPSILON
         \<and> (lengthV (binormals frames ! i))\<^sup>2
             = 1 - (dotV (tangents frames ! i) (normals frames ! i))\<^sup>2"
    by blast
  from exact have all_exact: "(\<forall>i<segments.
            lengthV (crossVectors (tangents frames ! i) (tangents frames ! Suc i)) = 0
            \<or> lengthV (crossVectors (tangents frames ! i) (tangents frames ! Suc i))
                > numberEPSILON) \<longrightarrow>
          (\<forall>i\<le>segments.
             dotV (tangents frames ! i) (normals frames ! i) = 0
           \<and> lengthV (binormals frames ! i) = 1)"
    by blast
  show ?thesis using len' lens all_general all_exact by (intro conjI)
qed

lemma square_nonDegenerate: "nonDegenerate squarePoint"
  by (auto simp add: nonDegenerate_def squarePoint_def split: if_splits)

lemma corner_transport:
  "transportNormal (Vec3 1 0 0) (Vec3 0 0 1) (Vec3 0 0 (- 1)) = Vec3 1 0 0"
proof -
  have cross: "crossVectors (Vec3 1 0 0) (Vec3 0 0 1) = Vec3 0 (- 1) 0"
    by (simp add: crossVectors_def)
  have len: "lengthV (Vec3 0 (- 1) 0) = 1" by (simp add: lengthV_def dotV_def)
  have eps: "numberEPSILON < 1" by (simp add: numberEPSILON_def)
  have norm: "normalizeVec3 (Vec3 0 (- 1) 0) = Vec3 0 (- 1) 0"
    by (simp add: normalizeVec3_def len)
  have angle: "arccos (Clamp (dotV (Vec3 1 0 0) (Vec3 0 0 1)) (- 1) 1) = pi / 2"
    by (simp add: dotV_def Clamp_def)
  show ?thesis
    unfolding transportNormal_def Let_def cross len norm angle
    using eps by (simp add: rotateAboutAxis_def)
qed

lemma corner_frames:
  shows "tangents cornerFrames = [Vec3 1 0 0, Vec3 0 0 1]"
    and "normals cornerFrames = [Vec3 0 0 (- 1), Vec3 1 0 0]"
proof -
  show ts: "tangents cornerFrames = [Vec3 1 0 0, Vec3 0 0 1]"
    unfolding cornerFrames_def by (rule square_tangents)
  have "cornerFrames = framesFor (tangents cornerFrames) 1 False"
    unfolding cornerFrames_def computeFrenetFrames_tangents
    by (rule computeFrenetFrames_framesFor)
  then have eq: "cornerFrames = framesFor [Vec3 1 0 0, Vec3 0 0 1] 1 False"
    by (simp only: ts)
  have "normals cornerFrames
      = [Vec3 0 0 (- 1), transportNormal (Vec3 1 0 0) (Vec3 0 0 1) (Vec3 0 0 (- 1))]"
    by (subst eq) (rule normals_one_segment)
  then show "normals cornerFrames = [Vec3 0 0 (- 1), Vec3 1 0 0]"
    by (simp only: corner_transport)
qed

theorem frenet_frames_orthonormal_witness:
  "(0::nat) < 1 \<and> nonDegenerate squarePoint \<and> cacheShaped (newCurve 4)
   \<and> tangents cornerFrames = [Vec3 1 0 0, Vec3 0 0 1]
   \<and> normals cornerFrames = [Vec3 0 0 (- 1), Vec3 1 0 0]
   \<and> numberEPSILON
       < lengthV (crossVectors (tangents cornerFrames ! 0) (tangents cornerFrames ! 1))
   \<and> length (tangents cornerFrames) = 1 + 1
   \<and> length (normals cornerFrames) = 1 + 1
   \<and> length (binormals cornerFrames) = 1 + 1
   \<and> lengthV (tangents cornerFrames ! 1) = 1
   \<and> lengthV (normals cornerFrames ! 1) = 1
   \<and> binormals cornerFrames ! 1
       = crossVectors (tangents cornerFrames ! 1) (normals cornerFrames ! 1)
   \<and> dotV (tangents cornerFrames ! 1) (binormals cornerFrames ! 1) = 0
   \<and> dotV (normals cornerFrames ! 1) (binormals cornerFrames ! 1) = 0
   \<and> dotV (tangents cornerFrames ! 1) (normals cornerFrames ! 1) = 0
   \<and> lengthV (binormals cornerFrames ! 1) = 1"
proof -
  have pos: "(0::nat) < 1" by simp
  have shaped: "cacheShaped (newCurve 4)" by (simp add: cacheShaped_def newCurve_def)
  have fr: "cornerFrames = fst (computeFrenetFrames (curve3 squarePoint) 1 False (newCurve 4))"
    by (simp add: cornerFrames_def exSquare_def)
  have g: "numberEPSILON
       < lengthV (crossVectors (tangents cornerFrames ! 0) (tangents cornerFrames ! 1))"
    by (simp add: corner_frames(1) crossVectors_def lengthV_def dotV_def numberEPSILON_def)
  have gap: "\<forall>i<1.
        lengthV (crossVectors (tangents cornerFrames ! i) (tangents cornerFrames ! Suc i)) = 0
        \<or> lengthV (crossVectors (tangents cornerFrames ! i) (tangents cornerFrames ! Suc i))
            > numberEPSILON"
    using g by simp
  note th = frenet_frames_orthonormal [OF pos square_nonDegenerate shaped fr]
  from th have lens: "length (tangents cornerFrames) = 1 + 1"
    "length (normals cornerFrames) = 1 + 1" "length (binormals cornerFrames) = 1 + 1"
    by simp_all
  from th have "\<forall>i\<le>1.
           lengthV (tangents cornerFrames ! i) = 1
         \<and> lengthV (normals cornerFrames ! i) = 1
         \<and> binormals cornerFrames ! i
             = crossVectors (tangents cornerFrames ! i) (normals cornerFrames ! i)
         \<and> dotV (tangents cornerFrames ! i) (binormals cornerFrames ! i) = 0
         \<and> dotV (normals cornerFrames ! i) (binormals cornerFrames ! i) = 0
         \<and> \<bar>dotV (tangents cornerFrames ! i) (normals cornerFrames ! i)\<bar>
             \<le> real i * numberEPSILON
         \<and> (lengthV (binormals cornerFrames ! i))\<^sup>2
             = 1 - (dotV (tangents cornerFrames ! i) (normals cornerFrames ! i))\<^sup>2"
    by (elim conjE)
  then have general: "lengthV (tangents cornerFrames ! 1) = 1
         \<and> lengthV (normals cornerFrames ! 1) = 1
         \<and> binormals cornerFrames ! 1
             = crossVectors (tangents cornerFrames ! 1) (normals cornerFrames ! 1)
         \<and> dotV (tangents cornerFrames ! 1) (binormals cornerFrames ! 1) = 0
         \<and> dotV (normals cornerFrames ! 1) (binormals cornerFrames ! 1) = 0"
    by (rule allE [where x = 1]) simp
  from th gap have "\<forall>i\<le>1.
             dotV (tangents cornerFrames ! i) (normals cornerFrames ! i) = 0
           \<and> lengthV (binormals cornerFrames ! i) = 1"
    by (elim conjE) (rule mp)
  then have exact: "dotV (tangents cornerFrames ! 1) (normals cornerFrames ! 1) = 0
           \<and> lengthV (binormals cornerFrames ! 1) = 1"
    by (rule allE [where x = 1]) simp
  show ?thesis
    using pos square_nonDegenerate shaped corner_frames g lens general exact
    by (intro conjI) simp_all
qed




end
